theory Spec2Isabelle
  imports Complex_Main
begin

section \<open>Data model\<close>

text \<open>
  A document is a list of (feature id, weight) pairs. Feature ids are Python integers;
  a weight is a finite number, modelled as a rational (every finite float is one).
  A corpus is the list of the documents an iterable yields.
\<close>

type_synonym bow = "(int \<times> rat) list"
type_synonym corpus = "bow list"

datatype error = ValueError | ZeroDivisionError | IndexError | OverflowError

text \<open>\<^verbatim>\<open>int(y)\<close> on a finite number truncates towards zero.\<close>

definition py_int :: "rat \<Rightarrow> int" where
  "py_int y = (if 0 \<le> y then \<lfloor>y\<rfloor> else \<lceil>y\<rceil>)"

text \<open>\<^verbatim>\<open>str(n)\<close> on an integer: its decimal digits, with a leading minus sign when negative.\<close>

definition digit_char :: "nat \<Rightarrow> char" where
  "digit_char d = ''0123456789'' ! (d mod 10)"

function digits_of :: "nat \<Rightarrow> string" where
  "digits_of n = (if n < 10 then [digit_char n] else digits_of (n div 10) @ [digit_char (n mod 10)])"
  by pat_completeness auto
termination
  by (relation "measure id") auto

declare digits_of.simps [simp del]

definition str_int :: "int \<Rightarrow> string" where
  "str_int i = (if i < 0 then CHR ''-'' # digits_of (nat (- i)) else digits_of (nat i))"

section \<open>The output file\<close>

text \<open>
  The writer holds a file opened for writing: its bytes and the file position.
  \<^verbatim>\<open>write\<close> overwrites from the position on and extends the file at its end
  (a position beyond the end is filled with zero bytes first); \<^verbatim>\<open>seek\<close> moves the
  position, \<^verbatim>\<open>tell\<close> reads it.
\<close>

record writer =
  fname :: string
  fout :: string
  pos :: nat
  last_docno :: "int option"
  headers_written :: bool

definition fout_write :: "writer \<Rightarrow> string \<Rightarrow> writer" where
  "fout_write w s =
     w\<lparr>fout := take (pos w) (fout w) @ replicate (pos w - length (fout w)) (CHR 0x00)
                 @ s @ drop (pos w + length s) (fout w),
       pos := pos w + length s\<rparr>"

definition fout_seek :: "writer \<Rightarrow> nat \<Rightarrow> writer" where
  "fout_seek w offset = w\<lparr>pos := offset\<rparr>"

definition fout_tell :: "writer \<Rightarrow> nat" where
  "fout_tell w = pos w"

text \<open>
  Modelled from the spec: the constructor of \<^verbatim>\<open>MmWriter\<close> (gensim.matutils, not among
  the sources), which \<^verbatim>\<open>UciWriter\<close> inherits: the sink is a fresh file, nothing written yet.
\<close>

definition UciWriter :: "string \<Rightarrow> writer" where
  "UciWriter name =
     \<lparr>fname = name, fout = [], pos = 0, last_docno = None, headers_written = False\<rparr>"

section \<open>UciWriter: the header\<close>

definition MAX_HEADER_LENGTH :: nat where
  "MAX_HEADER_LENGTH = 20"

definition FAKE_HEADER :: string where
  "FAKE_HEADER = replicate MAX_HEADER_LENGTH (CHR '' '') @ [CHR 0x0A]"

definition write_headers :: "writer \<Rightarrow> writer" where
  "write_headers w =
     (fold (\<lambda>_ w'. fout_write w' FAKE_HEADER) [0 ..< 3] w)
       \<lparr>last_docno := Some (- 1), headers_written := True\<rparr>"

text \<open>The loop of \<^verbatim>\<open>update_headers\<close> over the three values, with its running offset.\<close>

fun update_values :: "writer \<Rightarrow> nat \<Rightarrow> string list \<Rightarrow> error + writer" where
  "update_values w offset [] = Inr w"
| "update_values w offset (v # values) =
     (if length v > length FAKE_HEADER then Inl ValueError
      else update_values (fout_write (fout_seek w offset) v) (offset + length FAKE_HEADER) values)"

definition update_headers :: "writer \<Rightarrow> int \<Rightarrow> int \<Rightarrow> int \<Rightarrow> error + writer" where
  "update_headers w num_docs num_terms num_nnz =
     update_values w 0 (map str_int [num_docs, num_terms, num_nnz])"

section \<open>Writing the documents\<close>

text \<open>
  Modelled from the spec: \<^verbatim>\<open>MmWriter.write_vector\<close> (gensim.matutils, not among the
  sources). The spec's writer protocol, steps 3 and 4: one entry line per pair of non-zero
  weight, in increasing order of the feature id, the fields in the order
  \<^verbatim>\<open>doc_id term_id count\<close>; what it returns feeds the running totals, the largest
  feature id written (\<open>-1\<close> for no line, so that \<open>1 + max_id\<close> is \<open>0\<close>) and the number of
  lines written.
\<close>

definition entry_line :: "int \<Rightarrow> int \<Rightarrow> int \<Rightarrow> string" where
  "entry_line docno termid weight =
     str_int docno @ '' '' @ str_int termid @ '' '' @ str_int weight @ [CHR 0x0A]"

definition write_vector :: "writer \<Rightarrow> int \<Rightarrow> (int \<times> int) list \<Rightarrow> writer \<times> (int \<times> int)" where
  "write_vector w docno vector =
     (let vec = sort_key fst (filter (\<lambda>(termid, weight). weight \<noteq> 0) vector);
          w' = fold (\<lambda>(termid, weight) w'. fout_write w' (entry_line docno termid weight)) vec w
      in (w', (if vec = [] then - 1 else Max (set (map fst vec)), int (length vec))))"

text \<open>
  The comprehension of line 259: every weight coerced with \<^verbatim>\<open>int\<close>, the pairs whose
  coerced weight is zero left out.
\<close>

definition int_vector :: "bow \<Rightarrow> (int \<times> int) list" where
  "int_vector doc = map (\<lambda>(x, y). (x, py_int y)) (filter (\<lambda>(x, y). py_int y \<noteq> 0) doc)"

text \<open>
  The local variables of \<^verbatim>\<open>UciWriter.write_corpus\<close> that its loop updates:
  \<^verbatim>\<open>writer\<close>, \<^verbatim>\<open>num_terms\<close>, \<^verbatim>\<open>num_nnz\<close>, \<^verbatim>\<open>docno\<close>, \<^verbatim>\<open>poslast\<close> and
  \<^verbatim>\<open>offsets\<close>.
\<close>

record locals =
  wr :: writer
  n_terms :: int
  n_nnz :: int
  docno :: int
  poslast :: int
  offsets :: "int list"

text \<open>
  Lines 253 to 257, run when \<^verbatim>\<open>index\<close> is set. \<^verbatim>\<open>offsets[-1] = -1\<close> raises
  IndexError on an empty list.
\<close>

definition record_offset :: "locals \<Rightarrow> error + locals" where
  "record_offset s =
     (let posnow = int (fout_tell (wr s)) in
      case (if posnow = poslast s then
              (if offsets s = [] then Inl IndexError
               else Inr ((offsets s)[length (offsets s) - 1 := - 1]))
            else Inr (offsets s)) of
        Inl e \<Rightarrow> Inl e
      | Inr offs \<Rightarrow> Inr (s\<lparr>offsets := offs @ [posnow], poslast := posnow\<rparr>))"

text \<open>
  One pass of the loop body for document \<open>n\<close>. \<^verbatim>\<open>docno % progress_cnt\<close> raises
  ZeroDivisionError when \<^verbatim>\<open>progress_cnt\<close> is zero; the log line itself is not modelled.
  \<^verbatim>\<open>writer.write_vector\<close> is a method that the writer inherits from \<^verbatim>\<open>MmWriter\<close>:
  the pass is given for any such method first, then for the one modelled above.
\<close>

definition write_doc_with ::
  "(writer \<Rightarrow> int \<Rightarrow> (int \<times> int) list \<Rightarrow> writer \<times> (int \<times> int))
     \<Rightarrow> int \<Rightarrow> bool \<Rightarrow> nat \<Rightarrow> bow \<Rightarrow> locals \<Rightarrow> error + locals" where
  "write_doc_with writer_write_vector progress_cnt index n bow s0 =
     (let s = s0\<lparr>docno := int n\<rparr> in
      if progress_cnt = 0 then Inl ZeroDivisionError
      else case (if index then record_offset s else Inr s) of
        Inl e \<Rightarrow> Inl e
      | Inr s1 \<Rightarrow>
          (let vector = int_vector bow;
               (w', max_id, veclen) = writer_write_vector (wr s1) (docno s1) vector
           in Inr (s1\<lparr>wr := w', n_terms := max (n_terms s1) (1 + max_id),
                       n_nnz := n_nnz s1 + veclen\<rparr>)))"

definition write_doc :: "int \<Rightarrow> bool \<Rightarrow> nat \<Rightarrow> bow \<Rightarrow> locals \<Rightarrow> error + locals" where
  "write_doc = write_doc_with write_vector"

fun write_docs :: "int \<Rightarrow> bool \<Rightarrow> (nat \<times> bow) list \<Rightarrow> locals \<Rightarrow> error + locals" where
  "write_docs progress_cnt index [] s = Inr s"
| "write_docs progress_cnt index ((n, bow) # rest) s =
     (case write_doc progress_cnt index n bow s of
        Inl e \<Rightarrow> Inl e
      | Inr s' \<Rightarrow> write_docs progress_cnt index rest s')"

text \<open>
  \<^verbatim>\<open>UciWriter.write_corpus\<close>: the file as it is when the writer is closed, and the
  offsets when \<^verbatim>\<open>index\<close> is set (\<^verbatim>\<open>None\<close> otherwise).
\<close>

definition write_corpus :: "string \<Rightarrow> corpus \<Rightarrow> int \<Rightarrow> bool \<Rightarrow> error + (writer \<times> int list option)" where
  "write_corpus name corpus progress_cnt index =
     (let writer = write_headers (UciWriter name);
          s0 = \<lparr>wr = writer, n_terms = 0, n_nnz = 0, docno = - 1, poslast = - 1, offsets = []\<rparr>
      in case write_docs progress_cnt index (enumerate 0 corpus) s0 of
        Inl e \<Rightarrow> Inl e
      | Inr s \<Rightarrow>
          (let num_docs = docno s + 1 in
           case update_headers (wr s) num_docs (n_terms s) (n_nnz s) of
             Inl e \<Rightarrow> Inl e
           | Inr w \<Rightarrow> Inr (w, if index then Some (offsets s) else None)))"

section \<open>UciReader: reading the header back\<close>

text \<open>
  Iterating over a file opened in binary mode yields its lines, each with its newline;
  a last line need not have one.
\<close>

fun lines_of :: "string \<Rightarrow> string list" where
  "lines_of [] = []"
| "lines_of (c # cs) =
     (if c = CHR 0x0A then [c] # lines_of cs
      else case lines_of cs of [] \<Rightarrow> [[c]] | l # ls \<Rightarrow> (c # l) # ls)"

text \<open>\<^verbatim>\<open>bytes.strip()\<close> removes ASCII whitespace at both ends.\<close>

definition is_space :: "char \<Rightarrow> bool" where
  "is_space c \<longleftrightarrow> c \<in> set [CHR '' '', CHR 0x09, CHR 0x0A, CHR 0x0B, CHR 0x0C, CHR 0x0D]"

definition strip :: "string \<Rightarrow> string" where
  "strip s = rev (dropWhile is_space (rev (dropWhile is_space s)))"

text \<open>
  \<^verbatim>\<open>int(b)\<close> on bytes, base ten: surrounding whitespace, an optional sign, then digits,
  where single underscores may stand between digits. Anything else raises ValueError
  (\<open>None\<close> here).
\<close>

definition is_digit :: "char \<Rightarrow> bool" where
  "is_digit c \<longleftrightarrow> c \<in> set ''0123456789''"

definition digit_val :: "char \<Rightarrow> int" where
  "digit_val c = int (length (takeWhile (\<lambda>d. d \<noteq> c) ''0123456789''))"

fun digit_groups :: "string \<Rightarrow> bool" where
  "digit_groups [] = False"
| "digit_groups [c] = is_digit c"
| "digit_groups (c # d # cs) =
     (is_digit c \<and> (if d = CHR ''_'' then digit_groups cs else digit_groups (d # cs)))"

definition digits_value :: "string \<Rightarrow> int option" where
  "digits_value s =
     (if digit_groups s
      then Some (foldl (\<lambda>a c. 10 * a + digit_val c) 0 (filter (\<lambda>c. c \<noteq> CHR ''_'') s))
      else None)"

definition int_of_bytes :: "string \<Rightarrow> int option" where
  "int_of_bytes b =
     (case strip b of
        [] \<Rightarrow> None
      | c # cs \<Rightarrow>
          if c = CHR ''+'' then digits_value cs
          else if c = CHR ''-'' then map_option uminus (digits_value cs)
          else digits_value (c # cs))"

text \<open>
  The counts of a corpus header, and a reader with them as attributes. The three counts
  are attributes of the compiled base class \<^verbatim>\<open>MmReader\<close>, declared there as
  \<^verbatim>\<open>long long\<close>: assigning an integer outside the 64-bit signed range raises
  OverflowError.
\<close>

record corpus_header =
  num_docs :: int
  num_terms :: int
  num_nnz :: int

record reader = corpus_header +
  input :: string

definition long_long :: "int \<Rightarrow> error + int" where
  "long_long n = (if - (2 ^ 63) \<le> n \<and> n < 2 ^ 63 then Inr n else Inl OverflowError)"

text \<open>
  \<^verbatim>\<open>int(line.strip())\<close> for one header line, as the value assigned to a count: a
  ValueError of \<^verbatim>\<open>int\<close>, or the OverflowError of the assignment.
\<close>

definition read_count :: "string \<Rightarrow> error + int" where
  "read_count line =
     (case int_of_bytes (strip line) of None \<Rightarrow> Inl ValueError | Some n \<Rightarrow> long_long n)"

text \<open>
  \<^verbatim>\<open>UciReader.__init__\<close> reads up to three lines of the file: \<^verbatim>\<open>next(fin)\<close> on an
  exhausted file raises StopIteration, which the constructor catches, keeping the counts
  set so far; a ValueError or an OverflowError is not caught.
\<close>

definition UciReader_init :: "string \<Rightarrow> string \<Rightarrow> error + reader" where
  "UciReader_init inp contents =
     (let r0 = \<lparr>num_docs = 0, num_terms = 0, num_nnz = 0, input = inp\<rparr> in
      case lines_of contents of
        [] \<Rightarrow> Inr r0
      | l1 # fin1 \<Rightarrow>
          (case read_count l1 of
             Inl e \<Rightarrow> Inl e
           | Inr n1 \<Rightarrow>
               (let r1 = r0\<lparr>num_docs := n1\<rparr> in
                case fin1 of
                  [] \<Rightarrow> Inr r1
                | l2 # fin2 \<Rightarrow>
                    (case read_count l2 of
                       Inl e \<Rightarrow> Inl e
                     | Inr n2 \<Rightarrow>
                         (let r2 = r1\<lparr>num_terms := n2\<rparr> in
                          case fin2 of
                            [] \<Rightarrow> Inr r2
                          | l3 # fin3 \<Rightarrow>
                              (case read_count l3 of
                                 Inl e \<Rightarrow> Inl e
                               | Inr n3 \<Rightarrow> Inr (r2\<lparr>num_nnz := n3\<rparr>)))))))"

section \<open>Saving a corpus\<close>

text \<open>
  The mapping \<^verbatim>\<open>id2word\<close>, given by its items; where a key is listed twice, the first
  item is the binding. \<^verbatim>\<open>len\<close> counts the keys, \<^verbatim>\<open>max\<close> is the largest key,
  \<^verbatim>\<open>get\<close> looks a key up with a default.
\<close>

type_synonym id2word = "(int \<times> string) list"

definition dict_len :: "id2word \<Rightarrow> int" where
  "dict_len d = int (length (remdups (map fst d)))"

definition dict_max :: "id2word \<Rightarrow> int" where
  "dict_max d = Max (set (map fst d))"

definition dict_get :: "id2word \<Rightarrow> int \<Rightarrow> string \<Rightarrow> string" where
  "dict_get d k dflt = (case map_of d k of None \<Rightarrow> dflt | Some v \<Rightarrow> v)"

text \<open>
  \<^verbatim>\<open>UciCorpus.save_corpus\<close>: the bytes of the vocabulary file, and what
  \<^verbatim>\<open>UciWriter.write_corpus\<close> returns for the corpus file. The vocabulary file is written
  first. \<^verbatim>\<open>utils.dict_from_corpus\<close>, the mapping inferred when none is given, is not
  among the sources and is a parameter; so are the names of the two files, which play no
  role here beyond \<open>name\<close>.
\<close>

definition UciCorpus_save_corpus ::
  "(corpus \<Rightarrow> id2word) \<Rightarrow> string \<Rightarrow> corpus \<Rightarrow> id2word option \<Rightarrow> int
     \<Rightarrow> string \<times> (error + (writer \<times> int list option))" where
  "UciCorpus_save_corpus dict_from_corpus name corpus id2word progress_cnt =
     (let (id2word', num_terms) =
            (case id2word of
               None \<Rightarrow> (let d = dict_from_corpus corpus in (d, dict_len d))
             | Some d \<Rightarrow> if d \<noteq> [] then (d, 1 + dict_max d) else (d, 0));
          vocab = concat (map (\<lambda>featureid. dict_get id2word' featureid ''---'' @ [CHR 0x0A])
                              [0 .. num_terms - 1])
      in (vocab, write_corpus name corpus progress_cnt True))"





section \<open>Iterating over a corpus\<close>

text \<open>
  Modelled from the spec: \<^verbatim>\<open>MmReader.__iter__\<close> (compiled code, of which the sources hold
  the signature and the docstring only). The spec's streaming reader as a state machine
  over \<open>(current_doc_id, pending entries)\<close>, fed with the decoded entry lines
  \<open>(doc_id, feature_id, weight)\<close>: an entry of the current document is appended; an entry
  of another document emits the current one, then an empty document for every id strictly
  between the two, and starts the new one; at the end of the stream the current document is
  emitted, then an empty document for every remaining id up to \<open>num_docs - 1\<close>. The ids
  below the first observed id are fabricated as well, as the post-condition of the spec and
  the docstring (``empty documents are inserted and yielded where appropriate'') ask;
  without entry lines every id up to \<open>num_docs - 1\<close> is fabricated.
\<close>

type_synonym entry = "int \<times> int \<times> rat"

definition empty_docs :: "int \<Rightarrow> int \<Rightarrow> (int \<times> bow) list" where
  "empty_docs a b = map (\<lambda>i. (i, [])) [a .. b]"

fun group_entries :: "int \<Rightarrow> bow \<Rightarrow> int \<Rightarrow> entry list \<Rightarrow> (int \<times> bow) list" where
  "group_entries current_doc_id pending n [] =
     (current_doc_id, pending) # empty_docs (current_doc_id + 1) (n - 1)"
| "group_entries current_doc_id pending n ((doc_id, feature_id, weight) # rest) =
     (if doc_id = current_doc_id
      then group_entries current_doc_id (pending @ [(feature_id, weight)]) n rest
      else (current_doc_id, pending) # empty_docs (current_doc_id + 1) (doc_id - 1)
           @ group_entries doc_id [(feature_id, weight)] n rest)"

definition MmReader_iter :: "int \<Rightarrow> entry list \<Rightarrow> (int \<times> bow) list" where
  "MmReader_iter n entries =
     (case entries of
        [] \<Rightarrow> empty_docs 0 (n - 1)
      | (doc_id, feature_id, weight) # rest \<Rightarrow>
          empty_docs 0 (doc_id - 1) @ group_entries doc_id [(feature_id, weight)] n rest)"

text \<open>\<^verbatim>\<open>MmCorpus.__iter__\<close> drops the document ids.\<close>

definition MmCorpus_iter :: "int \<Rightarrow> entry list \<Rightarrow> bow list" where
  "MmCorpus_iter n entries = map snd (MmReader_iter n entries)"

section \<open>Notions for stating the properties\<close>

subsection \<open>The contents of the written file\<close>

text \<open>
  A header line once a value has been written at its start: the digits of the value, then
  what is left of the blank line.
\<close>

definition header_slot :: "int \<Rightarrow> string" where
  "header_slot n = str_int n @ drop (length (str_int n)) FAKE_HEADER"

text \<open>
  The entry lines of document number \<open>n\<close>; the entry lines of a corpus whose first document
  has number \<open>k\<close>, in the order written; and the bytes they make up.
\<close>

definition doc_lines :: "nat \<Rightarrow> bow \<Rightarrow> string list" where
  "doc_lines n bow =
     map (\<lambda>(termid, weight). entry_line (int n) termid weight) (sort_key fst (int_vector bow))"

definition all_lines :: "nat \<Rightarrow> corpus \<Rightarrow> string list" where
  "all_lines k docs = concat (map (\<lambda>(n, bow). doc_lines n bow) (enumerate k docs))"

definition body :: "nat \<Rightarrow> corpus \<Rightarrow> string" where
  "body k docs = concat (map (\<lambda>(n, bow). concat (doc_lines n bow)) (enumerate k docs))"

text \<open>
  The pairs written for a corpus, and the counts that go with them: the largest feature id
  of a document (\<open>-1\<close> for none), the running \<open>num_terms\<close> after a list of documents, the
  number of pairs, and the number of terms that the written pairs call for, one more than
  the largest feature id among them, \<open>0\<close> when no pair was written.
\<close>

definition written_pairs :: "corpus \<Rightarrow> (int \<times> int) list" where
  "written_pairs docs = concat (map int_vector docs)"

definition max_id_of :: "bow \<Rightarrow> int" where
  "max_id_of bow = (if int_vector bow = [] then - 1 else Max (fst ` set (int_vector bow)))"

definition terms_after :: "int \<Rightarrow> corpus \<Rightarrow> int" where
  "terms_after t docs = fold (\<lambda>bow t. max t (1 + max_id_of bow)) docs t"

definition nnz_of :: "corpus \<Rightarrow> int" where
  "nnz_of docs = sum_list (map (\<lambda>bow. int (length (int_vector bow))) docs)"

definition observed_terms :: "corpus \<Rightarrow> int" where
  "observed_terms corpus =
     (if written_pairs corpus = [] then 0 else 1 + Max (fst ` set (written_pairs corpus)))"

text \<open>
  The writer that a completed write leaves, and the condition under which
  \<^verbatim>\<open>update_headers\<close> raises nothing.
\<close>

definition patched_file :: "string \<Rightarrow> corpus \<Rightarrow> writer" where
  "patched_file name corpus =
     \<lparr>fname = name,
      fout = header_slot (int (length corpus)) @ header_slot (terms_after 0 corpus)
             @ header_slot (nnz_of corpus) @ body 0 corpus,
      pos = 42 + length (str_int (nnz_of corpus)),
      last_docno = Some (- 1), headers_written = True\<rparr>"

definition header_fits :: "corpus \<Rightarrow> bool" where
  "header_fits corpus \<longleftrightarrow>
     length (str_int (int (length corpus))) \<le> 21 \<and>
     length (str_int (terms_after 0 corpus)) \<le> 21 \<and>
     length (str_int (nnz_of corpus)) \<le> 21"

subsection \<open>The recorded positions\<close>

text \<open>
  The file position when the first \<open>i\<close> documents of a corpus are written: the size of
  the header plus the size of their entry lines. It is what \<^verbatim>\<open>tell\<close> returns before
  document \<open>i\<close> is written.
\<close>

definition start_pos :: "corpus \<Rightarrow> nat \<Rightarrow> nat" where
  "start_pos corpus i =
     length (FAKE_HEADER @ FAKE_HEADER @ FAKE_HEADER) + length (body 0 (take i corpus))"

text \<open>
  The same positions, computed along the documents from the position \<open>p\<close> of document
  \<open>k\<close>; a list of positions with every position that equals its successor replaced by the
  sentinel; and the last position of a list, \<open>-1\<close> for none, as \<^verbatim>\<open>poslast\<close> starts.
\<close>

fun doc_positions :: "nat \<Rightarrow> nat \<Rightarrow> corpus \<Rightarrow> nat list" where
  "doc_positions p k [] = []"
| "doc_positions p k (bow # docs) =
     p # doc_positions (p + length (concat (doc_lines k bow))) (Suc k) docs"

fun mark :: "int list \<Rightarrow> int list" where
  "mark (p # q # ps) = (if p = q then - 1 else p) # mark (q # ps)"
| "mark ps = ps"

definition lastpos :: "int list \<Rightarrow> int" where
  "lastpos ps = (if ps = [] then - 1 else last ps)"

subsection \<open>Reading, vocabulary and iteration\<close>

text \<open>The count that line \<open>i\<close> of a file gives, \<open>0\<close> when the file has no such line.\<close>

definition header_count :: "string list \<Rightarrow> nat \<Rightarrow> int" where
  "header_count ls i =
     (if i < length ls then (case read_count (ls ! i) of Inr n \<Rightarrow> n | Inl e \<Rightarrow> 0) else 0)"

text \<open>
  The mapping that \<^verbatim>\<open>UciCorpus.save_corpus\<close> writes the vocabulary from, its
  \<^verbatim>\<open>num_terms\<close>, and the line of the vocabulary file for a feature id.
\<close>

definition vocab_dict :: "(corpus \<Rightarrow> id2word) \<Rightarrow> corpus \<Rightarrow> id2word option \<Rightarrow> id2word" where
  "vocab_dict dict_from_corpus corpus id2word =
     (case id2word of None \<Rightarrow> dict_from_corpus corpus | Some d \<Rightarrow> d)"

definition vocab_terms :: "(corpus \<Rightarrow> id2word) \<Rightarrow> corpus \<Rightarrow> id2word option \<Rightarrow> int" where
  "vocab_terms dict_from_corpus corpus id2word =
     (case id2word of
        None \<Rightarrow> dict_len (dict_from_corpus corpus)
      | Some d \<Rightarrow> if d = [] then 0 else 1 + Max (set (map fst d)))"

definition vocab_line :: "id2word \<Rightarrow> int \<Rightarrow> string" where
  "vocab_line d i = (case map_of d i of None \<Rightarrow> ''---'' | Some word \<Rightarrow> word) @ [CHR 0x0A]"

text \<open>The pairs that the entry lines give for document \<open>i\<close>, in the order of the lines.\<close>

definition entries_of :: "int \<Rightarrow> entry list \<Rightarrow> bow" where
  "entries_of i entries = map snd (filter (\<lambda>e. fst e = i) entries)"

subsection \<open>Example inputs\<close>

text \<open>
  The scenario of the spec, three documents of which the second is empty, and the file
  that the writer leaves for it.
\<close>

definition scenario :: corpus where
  "scenario = [[(0, 1), (2, 3)], [], [(1, 2)]]"

definition scenario_file :: "string \<Rightarrow> writer" where
  "scenario_file name =
     \<lparr>fname = name,
      fout = ''3'' @ replicate 19 (CHR '' '') @ [CHR 0x0A]
           @ ''3'' @ replicate 19 (CHR '' '') @ [CHR 0x0A]
           @ ''3'' @ replicate 19 (CHR '' '') @ [CHR 0x0A]
           @ ''0 0 1'' @ [CHR 0x0A] @ ''0 2 3'' @ [CHR 0x0A] @ ''2 1 2'' @ [CHR 0x0A],
      pos = 43, last_docno = Some (- 1), headers_written = True\<rparr>"

text \<open>The writer once the three counts of the scenario are patched into the blank header.\<close>

definition patched_blank :: writer where
  "patched_blank =
     (write_headers (UciWriter ''corpus.uci''))
       \<lparr>fout := header_slot 3 @ header_slot 3 @ header_slot 3, pos := 43\<rparr>"

text \<open>
  A corpus with a zero weight and with weights that are not whole numbers, and the file
  that the writer leaves for it.
\<close>

definition fractions :: corpus where
  "fractions = [[(0, 0), (1, 1 / 2), (2, 3)], [(4, - (3 / 2))]]"

definition fractions_file :: "string \<Rightarrow> writer" where
  "fractions_file name =
     \<lparr>fname = name,
      fout = ''2'' @ replicate 19 (CHR '' '') @ [CHR 0x0A]
           @ ''5'' @ replicate 19 (CHR '' '') @ [CHR 0x0A]
           @ ''2'' @ replicate 19 (CHR '' '') @ [CHR 0x0A]
           @ ''0 2 3'' @ [CHR 0x0A] @ ''1 4 -1'' @ [CHR 0x0A],
      pos = 43, last_docno = Some (- 1), headers_written = True\<rparr>"

text \<open>
  A corpus whose one feature id has twenty digits, so that \<open>num_terms\<close> has twenty-one,
  and the file that the writer leaves for it.
\<close>

definition overlong :: corpus where
  "overlong = [[(99999999999999999999, 1)]]"

definition overlong_file :: "string \<Rightarrow> writer" where
  "overlong_file name =
     \<lparr>fname = name,
      fout = ''1'' @ replicate 19 (CHR '' '') @ [CHR 0x0A]
           @ ''100000000000000000000''
           @ ''1'' @ replicate 19 (CHR '' '') @ [CHR 0x0A]
           @ ''0 99999999999999999999 1'' @ [CHR 0x0A],
      pos = 43, last_docno = Some (- 1), headers_written = True\<rparr>"


section \<open>The header: placeholder and patch\<close>

lemma upt3: "[0 ..< 3] = [0, 1, 2]"
  by (simp add: upt_rec)

lemma length_FAKE_HEADER: "length FAKE_HEADER = 21"
  by (simp add: FAKE_HEADER_def MAX_HEADER_LENGTH_def)

lemma fout_write_end:
  "pos w = length (fout w) \<Longrightarrow>
   fout_write w s = w\<lparr>fout := fout w @ s, pos := length (fout w) + length s\<rparr>"
  by (simp add: fout_write_def)

lemma fout_write_mid:
  "pos w = length X \<Longrightarrow> fout w = X @ F @ Y \<Longrightarrow> length v \<le> length F \<Longrightarrow>
   fout_write w v = w\<lparr>fout := X @ (v @ drop (length v) F) @ Y, pos := length X + length v\<rparr>"
  by (simp add: fout_write_def)

lemma write_headers_eq:
  "write_headers (UciWriter name) =
     \<lparr>fname = name, fout = FAKE_HEADER @ FAKE_HEADER @ FAKE_HEADER, pos = 63,
      last_docno = Some (- 1), headers_written = True\<rparr>"
  by (simp add: write_headers_def UciWriter_def upt3 fout_write_def length_FAKE_HEADER)

lemma length_header_slot: "length (str_int n) \<le> 21 \<Longrightarrow> length (header_slot n) = 21"
  by (simp add: header_slot_def length_FAKE_HEADER)

lemma update_headers_ok:
  assumes f: "fout w = FAKE_HEADER @ FAKE_HEADER @ FAKE_HEADER @ B"
    and a: "length (str_int a) \<le> 21" and b: "length (str_int b) \<le> 21"
    and c: "length (str_int c) \<le> 21"
  shows "update_headers w a b c =
    Inr (w\<lparr>fout := header_slot a @ header_slot b @ header_slot c @ B,
           pos := 42 + length (str_int c)\<rparr>)"
proof -
  let ?F = FAKE_HEADER
  let ?w1 = "w\<lparr>fout := header_slot a @ ?F @ ?F @ B, pos := length (str_int a)\<rparr>"
  let ?w2 = "w\<lparr>fout := header_slot a @ header_slot b @ ?F @ B, pos := 21 + length (str_int b)\<rparr>"
  have 1: "fout_write (fout_seek w 0) (str_int a) = ?w1"
    using fout_write_mid[of "fout_seek w 0" "[]" ?F "?F @ ?F @ B" "str_int a"] f a
    by (simp add: fout_seek_def length_FAKE_HEADER header_slot_def)
  have 2: "fout_write (fout_seek ?w1 21) (str_int b) = ?w2"
    using fout_write_mid[of "fout_seek ?w1 21" "header_slot a" ?F "?F @ B" "str_int b"] a b
    by (simp add: fout_seek_def length_FAKE_HEADER length_header_slot) (simp add: header_slot_def)
  have 3: "fout_write (fout_seek ?w2 42) (str_int c)
      = w\<lparr>fout := header_slot a @ header_slot b @ header_slot c @ B,
           pos := 42 + length (str_int c)\<rparr>"
    using fout_write_mid[of "fout_seek ?w2 42" "header_slot a @ header_slot b" ?F "B" "str_int c"]
      a b c
    by (simp add: fout_seek_def length_FAKE_HEADER length_header_slot) (simp add: header_slot_def)
  show ?thesis
    using a b c by (simp add: update_headers_def length_FAKE_HEADER 1 2 3)
qed

lemma update_headers_error:
  "length (str_int a) > 21 \<or> length (str_int b) > 21 \<or> length (str_int c) > 21 \<Longrightarrow>
   update_headers w a b c = Inl ValueError"
  by (auto simp add: update_headers_def length_FAKE_HEADER)

section \<open>The loop of write_corpus\<close>

lemma int_vector_nonzero: "filter (\<lambda>(termid, weight). weight \<noteq> 0) (int_vector bow) = int_vector bow"
  by (induction bow) (auto simp: int_vector_def)

lemma fold_write_end:
  "pos w = length (fout w) \<Longrightarrow>
   fold (\<lambda>(t, c) w'. fout_write w' (f t c)) vec w =
     w\<lparr>fout := fout w @ concat (map (\<lambda>(t, c). f t c) vec),
       pos := length (fout w) + length (concat (map (\<lambda>(t, c). f t c) vec))\<rparr>"
proof (induction vec arbitrary: w)
  case Nil
  then show ?case by simp
next
  case (Cons p vec)
  obtain t c where p: "p = (t, c)" by (cases p)
  have e: "pos (fout_write w (f t c)) = length (fout (fout_write w (f t c)))"
    using Cons.prems by (simp add: fout_write_end)
  show ?case
    using Cons.IH[OF e] Cons.prems by (simp add: p fout_write_end)
qed

lemma sort_key_Nil_iff: "sort_key f xs = [] \<longleftrightarrow> xs = []"
  using length_sort[of f xs] by (metis length_0_conv)

lemma write_vector_end:
  "pos w = length (fout w) \<Longrightarrow>
   write_vector w (int n) (int_vector bow) =
     (w\<lparr>fout := fout w @ concat (doc_lines n bow),
        pos := length (fout w) + length (concat (doc_lines n bow))\<rparr>,
      max_id_of bow, int (length (int_vector bow)))"
  by (simp add: write_vector_def int_vector_nonzero fold_write_end doc_lines_def max_id_of_def Let_def sort_key_Nil_iff)

lemma length_mark [simp]: "length (mark ps) = length ps"
  by (induction ps rule: mark.induct) auto

lemma mark_Nil_iff [simp]: "mark ps = [] \<longleftrightarrow> ps = []"
  by (metis length_mark length_0_conv)

lemma last_mark: "ps \<noteq> [] \<Longrightarrow> last (mark ps) = last ps"
  by (induction ps rule: mark.induct) auto

lemma mark_snoc:
  "ps \<noteq> [] \<Longrightarrow>
   mark (ps @ [q]) = (if last ps = q then (mark ps)[length ps - 1 := - 1] else mark ps) @ [q]"
proof (induction ps)
  case Nil
  then show ?case by simp
next
  case (Cons p ps)
  show ?case
  proof (cases ps)
    case Nil
    then show ?thesis by simp
  next
    case (Cons r rs)
    then show ?thesis using Cons.IH by (cases rs) auto
  qed
qed

lemma write_doc_run:
  assumes pc: "pc \<noteq> 0" and e: "pos (wr s) = length (fout (wr s))"
    and inv: "index \<Longrightarrow> offsets s = mark ps0 \<and> poslast s = lastpos ps0 \<and> (\<forall>p\<in>set ps0. 0 \<le> p)"
  shows "\<exists>s'. write_doc pc index n bow s = Inr s'
     \<and> wr s' = (wr s)\<lparr>fout := fout (wr s) @ concat (doc_lines n bow),
                        pos := length (fout (wr s) @ concat (doc_lines n bow))\<rparr>
     \<and> n_terms s' = max (n_terms s) (1 + max_id_of bow)
     \<and> n_nnz s' = n_nnz s + int (length (int_vector bow))
     \<and> docno s' = int n
     \<and> (index \<longrightarrow> offsets s' = mark (ps0 @ [int (length (fout (wr s)))])
                   \<and> poslast s' = int (length (fout (wr s))))
     \<and> (\<not> index \<longrightarrow> offsets s' = offsets s \<and> poslast s' = poslast s)"
proof (cases index)
  case False
  then show ?thesis
    using pc e by (simp add: write_doc_def write_doc_with_def write_vector_end Let_def)
next
  case True
  let ?q = "int (length (fout (wr s)))"
  let ?s = "s\<lparr>docno := int n\<rparr>"
  have ro: "record_offset ?s = Inr (?s\<lparr>offsets := mark (ps0 @ [?q]), poslast := ?q\<rparr>)"
  proof (cases "ps0 = []")
    case True
    then show ?thesis
      using inv[OF \<open>index\<close>] e by (simp add: record_offset_def fout_tell_def lastpos_def Let_def)
  next
    case False
    then show ?thesis
      using inv[OF \<open>index\<close>] e
      by (simp add: record_offset_def fout_tell_def lastpos_def Let_def mark_snoc)
  qed
  show ?thesis
    using pc e True by (simp add: write_doc_def write_doc_with_def ro write_vector_end Let_def)
qed

lemma write_docs_run:
  assumes pc: "pc \<noteq> 0" and e: "pos (wr s) = length (fout (wr s))"
    and inv: "index \<Longrightarrow> offsets s = mark ps0 \<and> poslast s = lastpos ps0 \<and> (\<forall>p\<in>set ps0. 0 \<le> p)"
  shows "\<exists>s'. write_docs pc index (enumerate k docs) s = Inr s'
     \<and> wr s' = (wr s)\<lparr>fout := fout (wr s) @ body k docs,
                        pos := length (fout (wr s) @ body k docs)\<rparr>
     \<and> n_terms s' = terms_after (n_terms s) docs
     \<and> n_nnz s' = n_nnz s + nnz_of docs
     \<and> docno s' = (if docs = [] then docno s else int (k + length docs) - 1)
     \<and> (index \<longrightarrow> offsets s' = mark (ps0 @ map int (doc_positions (length (fout (wr s))) k docs)))
     \<and> (\<not> index \<longrightarrow> offsets s' = offsets s)"
  using e inv
proof (induction docs arbitrary: s k ps0)
  case Nil
  then show ?case by (simp add: body_def terms_after_def nnz_of_def)
next
  case (Cons bow docs)
  let ?q = "int (length (fout (wr s)))"
  let ?X = "concat (doc_lines k bow)"
  from write_doc_run[OF pc Cons.prems(1), of index ps0 k bow] Cons.prems(2)
  obtain s1 where s1: "write_doc pc index k bow s = Inr s1"
    and w1: "wr s1 = (wr s)\<lparr>fout := fout (wr s) @ ?X, pos := length (fout (wr s) @ ?X)\<rparr>"
    and t1: "n_terms s1 = max (n_terms s) (1 + max_id_of bow)"
    and z1: "n_nnz s1 = n_nnz s + int (length (int_vector bow))"
    and o1: "index \<longrightarrow> offsets s1 = mark (ps0 @ [?q]) \<and> poslast s1 = ?q"
    and o2: "\<not> index \<longrightarrow> offsets s1 = offsets s \<and> poslast s1 = poslast s"
    by blast
  have e1: "pos (wr s1) = length (fout (wr s1))" by (simp add: w1)
  have inv1: "index \<Longrightarrow> offsets s1 = mark (ps0 @ [?q]) \<and> poslast s1 = lastpos (ps0 @ [?q])
      \<and> (\<forall>p\<in>set (ps0 @ [?q]). 0 \<le> p)"
    using o1 Cons.prems(2) by (simp add: lastpos_def)
  from Cons.IH[OF e1 inv1, of "Suc k"]
  obtain s' where s': "write_docs pc index (enumerate (Suc k) docs) s1 = Inr s'"
    and w': "wr s' = (wr s1)\<lparr>fout := fout (wr s1) @ body (Suc k) docs,
                        pos := length (fout (wr s1) @ body (Suc k) docs)\<rparr>"
    and t': "n_terms s' = terms_after (n_terms s1) docs"
    and z': "n_nnz s' = n_nnz s1 + nnz_of docs"
    and d': "docno s' = (if docs = [] then docno s1 else int (Suc k + length docs) - 1)"
    and o1': "index \<longrightarrow> offsets s' = mark ((ps0 @ [?q]) @ map int (doc_positions (length (fout (wr s1))) (Suc k) docs))"
    and o2': "\<not> index \<longrightarrow> offsets s' = offsets s1"
    by blast
  have d1: "docno s1 = int k"
    using write_doc_run[OF pc Cons.prems(1), of index ps0 k bow] Cons.prems(2) s1 by auto
  show ?case
    using s1 s' w' t' z' d' o1' o2' w1 t1 z1 o2 d1
    by (simp add: body_def terms_after_def nnz_of_def)
qed

lemma write_docs_corpus:
  assumes pc: "pc \<noteq> 0 \<or> corpus = []"
  shows "\<exists>s. write_docs pc index (enumerate 0 corpus)
            \<lparr>wr = write_headers (UciWriter name), n_terms = 0, n_nnz = 0, docno = - 1,
             poslast = - 1, offsets = []\<rparr> = Inr s
     \<and> wr s = \<lparr>fname = name, fout = FAKE_HEADER @ FAKE_HEADER @ FAKE_HEADER @ body 0 corpus,
               pos = 63 + length (body 0 corpus), last_docno = Some (- 1), headers_written = True\<rparr>
     \<and> n_terms s = terms_after 0 corpus
     \<and> n_nnz s = nnz_of corpus
     \<and> docno s + 1 = int (length corpus)
     \<and> offsets s = (if index then mark (map int (doc_positions 63 0 corpus)) else [])"
proof (cases "corpus = []")
  case True
  then show ?thesis
    by (simp add: write_headers_eq body_def terms_after_def nnz_of_def)
next
  case False
  let ?s0 = "\<lparr>wr = write_headers (UciWriter name), n_terms = 0, n_nnz = 0, docno = - 1,
             poslast = - 1, offsets = []\<rparr>"
  have pc': "pc \<noteq> 0" using pc False by simp
  have e: "pos (wr ?s0) = length (fout (wr ?s0))"
    by (simp add: write_headers_eq length_FAKE_HEADER)
  have inv: "index \<Longrightarrow> offsets ?s0 = mark [] \<and> poslast ?s0 = lastpos [] \<and> (\<forall>p\<in>set ([]::int list). 0 \<le> p)"
    by (simp add: lastpos_def)
  from write_docs_run[OF pc' e inv, of index 0 corpus]
  show ?thesis
    using False by (auto simp add: write_headers_eq length_FAKE_HEADER)
qed

lemma write_corpus_ok:
  assumes pc: "pc \<noteq> 0 \<or> corpus = []" and fits: "header_fits corpus"
  shows "write_corpus name corpus pc index =
     Inr (patched_file name corpus,
          if index then Some (mark (map int (doc_positions 63 0 corpus))) else None)"
proof -
  from write_docs_corpus[OF pc, of index name]
  obtain s where s: "write_docs pc index (enumerate 0 corpus)
            \<lparr>wr = write_headers (UciWriter name), n_terms = 0, n_nnz = 0, docno = - 1,
             poslast = - 1, offsets = []\<rparr> = Inr s"
     and w: "wr s = \<lparr>fname = name, fout = FAKE_HEADER @ FAKE_HEADER @ FAKE_HEADER @ body 0 corpus,
               pos = 63 + length (body 0 corpus), last_docno = Some (- 1), headers_written = True\<rparr>"
     and t: "n_terms s = terms_after 0 corpus"
     and z: "n_nnz s = nnz_of corpus"
     and d: "docno s + 1 = int (length corpus)"
     and off: "offsets s = (if index then mark (map int (doc_positions 63 0 corpus)) else [])"
    by blast
  have f: "fout (wr s) = FAKE_HEADER @ FAKE_HEADER @ FAKE_HEADER @ body 0 corpus"
    by (simp add: w)
  have u: "update_headers (wr s) (int (length corpus)) (terms_after 0 corpus) (nnz_of corpus)
      = Inr (patched_file name corpus)"
    using update_headers_ok[OF f, of "int (length corpus)" "terms_after 0 corpus" "nnz_of corpus"] fits
    by (simp add: header_fits_def patched_file_def w)
  show ?thesis
    by (simp add: write_corpus_def s t z d u off Let_def)
qed

lemma write_corpus_too_large:
  assumes pc: "pc \<noteq> 0 \<or> corpus = []" and fits: "\<not> header_fits corpus"
  shows "write_corpus name corpus pc index = Inl ValueError"
proof -
  from write_docs_corpus[OF pc, of index name]
  obtain s where s: "write_docs pc index (enumerate 0 corpus)
            \<lparr>wr = write_headers (UciWriter name), n_terms = 0, n_nnz = 0, docno = - 1,
             poslast = - 1, offsets = []\<rparr> = Inr s"
     and t: "n_terms s = terms_after 0 corpus"
     and z: "n_nnz s = nnz_of corpus"
     and d: "docno s + 1 = int (length corpus)"
    by blast
  have u: "update_headers (wr s) (int (length corpus)) (terms_after 0 corpus) (nnz_of corpus)
      = Inl ValueError"
    using fits by (intro update_headers_error) (auto simp: header_fits_def)
  show ?thesis
    by (simp add: write_corpus_def s t z d u Let_def)
qed

lemma write_corpus_zero_progress:
  "corpus \<noteq> [] \<Longrightarrow> write_corpus name corpus 0 index = Inl ZeroDivisionError"
  by (cases corpus) (simp_all add: write_corpus_def write_doc_def write_doc_with_def Let_def)

section \<open>An empty corpus\<close>

lemma str_int_0: "str_int 0 = ''0''"
  by (simp add: str_int_def digits_of.simps digit_char_def)

lemma header_slot_0: "header_slot 0 = ''0'' @ replicate 19 (CHR '' '') @ [CHR 0x0A]"
  by (simp add: header_slot_def str_int_0 FAKE_HEADER_def MAX_HEADER_LENGTH_def)

text \<open>
  C9: writing an empty iterable of documents succeeds; the three header lines of the file
  hold \<open>0\<close>, \<open>0\<close> and \<open>0\<close>, each followed by what is left of its blank line, nothing
  follows the header, and the offsets returned when \<^verbatim>\<open>index\<close> is set are the empty list.
\<close>

theorem write_corpus_empty:
  "write_corpus name [] progress_cnt index =
     Inr (\<lparr>fname = name,
           fout = ''0'' @ replicate 19 (CHR '' '') @ [CHR 0x0A]
                @ ''0'' @ replicate 19 (CHR '' '') @ [CHR 0x0A]
                @ ''0'' @ replicate 19 (CHR '' '') @ [CHR 0x0A],
           pos = 43, last_docno = Some (- 1), headers_written = True\<rparr>,
          if index then Some [] else None)"
proof -
  have t: "terms_after 0 [] = 0" and z: "nnz_of [] = 0"
    by (simp_all add: terms_after_def nnz_of_def)
  have fits: "header_fits []"
    by (simp add: header_fits_def t z str_int_0)
  show ?thesis
    using write_corpus_ok[of progress_cnt "[]" name index, OF _ fits]
    by (simp add: patched_file_def t z header_slot_0 str_int_0 body_def)
qed

section \<open>Opening a UCI corpus\<close>

lemma UciReader_init_cases:
  "UciReader_init inp contents =
     (case find (\<lambda>l. isl (read_count l)) (take 3 (lines_of contents)) of
        Some l \<Rightarrow> Inl (projl (read_count l))
      | None \<Rightarrow> Inr \<lparr>num_docs = header_count (lines_of contents) 0,
                      num_terms = header_count (lines_of contents) 1,
                      num_nnz = header_count (lines_of contents) 2, input = inp\<rparr>)"
proof (cases "lines_of contents")
  case Nil
  then show ?thesis by (simp add: UciReader_init_def header_count_def)
next
  case c1: (Cons l1 fin1)
  show ?thesis
  proof (cases fin1)
    case Nil
    then show ?thesis using c1
      by (cases "read_count l1") (simp_all add: UciReader_init_def header_count_def)
  next
    case c2: (Cons l2 fin2)
    show ?thesis
    proof (cases fin2)
      case Nil
      then show ?thesis using c1 c2
        by (cases "read_count l1"; cases "read_count l2")
           (simp_all add: UciReader_init_def header_count_def)
    next
      case (Cons l3 fin3)
      then show ?thesis using c1 c2
        by (cases "read_count l1"; cases "read_count l2"; cases "read_count l3")
           (simp_all add: UciReader_init_def header_count_def)
    qed
  qed
qed

lemma read_count_errors:
  "read_count l = Inl e \<longleftrightarrow>
     (e = ValueError \<and> int_of_bytes (strip l) = None)
     \<or> (e = OverflowError
         \<and> (\<exists>n. int_of_bytes (strip l) = Some n \<and> (n < - (2 ^ 63) \<or> 2 ^ 63 \<le> n)))"
  by (cases "int_of_bytes (strip l)") (auto simp add: read_count_def long_long_def)

lemma read_count_small:
  "read_count (''5'' @ [CHR 0x0A]) = Inr 5"
  by (simp add: read_count_def long_long_def int_of_bytes_def strip_def is_space_def
      digits_value_def is_digit_def digit_val_def)

text \<open>
  C8, as stated, fails: an empty file, and a file cut off after its first header line,
  are accepted, and the counts that were not read are \<open>0\<close>.
\<close>

theorem UciReader_init_truncated_accepted:
  "UciReader_init ''corpus.uci'' [] =
     Inr \<lparr>num_docs = 0, num_terms = 0, num_nnz = 0, input = ''corpus.uci''\<rparr>
   \<and> UciReader_init ''corpus.uci'' (''5'' @ [CHR 0x0A]) =
     Inr \<lparr>num_docs = 5, num_terms = 0, num_nnz = 0, input = ''corpus.uci''\<rparr>"
proof -
  have "lines_of (''5'' @ [CHR 0x0A]) = [''5'' @ [CHR 0x0A]]" by simp
  then show ?thesis
    by (simp add: UciReader_init_def read_count_small[simplified])
qed

text \<open>
  C8, amended: opening a UCI corpus fails exactly when one of the first three lines that
  the file has does not give a count, and the error is that of the first such line: the
  ValueError of \<^verbatim>\<open>int\<close> when the line is not a well-formed integer, the OverflowError
  of the assignment when the integer is outside the 64-bit signed range. Otherwise it
  succeeds, and a count whose line is missing (a truncated or empty file) is \<open>0\<close>.
\<close>

theorem UciReader_init_result:
  "UciReader_init inp contents =
     (case find (\<lambda>l. isl (read_count l)) (take 3 (lines_of contents)) of
        Some l \<Rightarrow> Inl (projl (read_count l))
      | None \<Rightarrow> Inr \<lparr>num_docs = header_count (lines_of contents) 0,
                      num_terms = header_count (lines_of contents) 1,
                      num_nnz = header_count (lines_of contents) 2, input = inp\<rparr>)
   \<and> (read_count l = Inl e \<longleftrightarrow>
        (e = ValueError \<and> int_of_bytes (strip l) = None)
        \<or> (e = OverflowError
            \<and> (\<exists>n. int_of_bytes (strip l) = Some n \<and> (n < - (2 ^ 63) \<or> 2 ^ 63 \<le> n))))"
  using UciReader_init_cases[of inp contents] read_count_errors[of l e] by blast

theorem UciReader_init_result_witness:
  "UciReader_init ''corpus.uci'' (''9223372036854775808'' @ [CHR 0x0A]) = Inl OverflowError
   \<and> UciReader_init ''corpus.uci'' (''5'' @ [CHR 0x0A] @ ''five'' @ [CHR 0x0A]) = Inl ValueError
   \<and> UciReader_init ''corpus.uci'' (''5'' @ [CHR 0x0A]) =
     Inr \<lparr>num_docs = 5, num_terms = 0, num_nnz = 0, input = ''corpus.uci''\<rparr>"
proof -
  have big: "read_count (''9223372036854775808'' @ [CHR 0x0A]) = Inl OverflowError"
    by (simp add: read_count_def long_long_def int_of_bytes_def strip_def is_space_def
        digits_value_def is_digit_def digit_val_def)
  have word: "read_count (''five'' @ [CHR 0x0A]) = Inl ValueError"
    by (simp add: read_count_def int_of_bytes_def strip_def is_space_def
        digits_value_def is_digit_def)
  have l1: "lines_of (''9223372036854775808'' @ [CHR 0x0A]) = [''9223372036854775808'' @ [CHR 0x0A]]"
    and l2: "lines_of (''5'' @ [CHR 0x0A] @ ''five'' @ [CHR 0x0A])
        = [''5'' @ [CHR 0x0A], ''five'' @ [CHR 0x0A]]"
    and l3: "lines_of (''5'' @ [CHR 0x0A]) = [''5'' @ [CHR 0x0A]]"
    by simp_all
  have a: "UciReader_init ''corpus.uci'' (''9223372036854775808'' @ [CHR 0x0A]) = Inl OverflowError"
    using UciReader_init_result[of "''corpus.uci''" "''9223372036854775808'' @ [CHR 0x0A]"]
    by (simp only: l1) (simp add: big[simplified])
  have b: "UciReader_init ''corpus.uci'' (''5'' @ [CHR 0x0A] @ ''five'' @ [CHR 0x0A]) = Inl ValueError"
    using UciReader_init_result[of "''corpus.uci''" "''5'' @ [CHR 0x0A] @ ''five'' @ [CHR 0x0A]"]
    by (simp only: l2) (simp add: read_count_small[simplified] word[simplified])
  have c: "UciReader_init ''corpus.uci'' (''5'' @ [CHR 0x0A]) =
     Inr \<lparr>num_docs = 5, num_terms = 0, num_nnz = 0, input = ''corpus.uci''\<rparr>"
    using UciReader_init_result[of "''corpus.uci''" "''5'' @ [CHR 0x0A]"]
    by (simp only: l3) (simp add: read_count_small[simplified] header_count_def)
  show ?thesis using a b c by simp
qed

section \<open>The scenario of the spec\<close>

lemma str_int_digit: "str_int 1 = ''1''" "str_int 2 = ''2''" "str_int 3 = ''3''"
  by (simp_all add: str_int_def digits_of.simps digit_char_def)

lemma scenario_vectors:
  "int_vector [(0, 1), (2, 3)] = [(0, 1), (2, 3)]" "int_vector [] = []"
  "int_vector [(1, 2)] = [(1, 2)]"
  by (simp_all add: int_vector_def py_int_def)

lemma scenario_lines:
  "doc_lines 0 [(0, 1), (2, 3)] = [''0 0 1'' @ [CHR 0x0A], ''0 2 3'' @ [CHR 0x0A]]"
  "doc_lines n [] = []"
  "doc_lines (Suc (Suc 0)) [(1, 2)] = [''2 1 2'' @ [CHR 0x0A]]"
  by (simp_all add: doc_lines_def scenario_vectors entry_line_def str_int_0 str_int_digit)

lemma scenario_positions: "doc_positions 63 0 scenario = [63, 75, 75]"
  by (simp add: scenario_def scenario_lines)

lemma scenario_body:
  "body 0 scenario = ''0 0 1'' @ [CHR 0x0A] @ ''0 2 3'' @ [CHR 0x0A] @ ''2 1 2'' @ [CHR 0x0A]"
  by (simp add: scenario_def body_def scenario_lines)

lemma scenario_counts: "terms_after 0 scenario = 3" "nnz_of scenario = 3" "length scenario = 3"
  by (simp_all add: scenario_def terms_after_def nnz_of_def max_id_of_def scenario_vectors)

lemma scenario_fits: "header_fits scenario"
  by (simp add: header_fits_def scenario_counts str_int_digit)

lemma header_slot_3: "header_slot 3 = ''3'' @ replicate 19 (CHR '' '') @ [CHR 0x0A]"
  by (simp add: header_slot_def str_int_digit FAKE_HEADER_def MAX_HEADER_LENGTH_def)

lemma scenario_run:
  "write_corpus name scenario 1000 True =
     Inr (\<lparr>fname = name,
           fout = ''3'' @ replicate 19 (CHR '' '') @ [CHR 0x0A]
                @ ''3'' @ replicate 19 (CHR '' '') @ [CHR 0x0A]
                @ ''3'' @ replicate 19 (CHR '' '') @ [CHR 0x0A]
                @ ''0 0 1'' @ [CHR 0x0A] @ ''0 2 3'' @ [CHR 0x0A] @ ''2 1 2'' @ [CHR 0x0A],
           pos = 43, last_docno = Some (- 1), headers_written = True\<rparr>,
          Some [63, - 1, 75])"
  using write_corpus_ok[of 1000 scenario name True, OF _ scenario_fits]
  by (simp add: patched_file_def scenario_counts header_slot_3 str_int_digit scenario_body
      scenario_positions)

lemma scenario_run_file:
  "write_corpus name scenario 1000 True = Inr (scenario_file name, Some [63, - 1, 75])"
  by (simp add: scenario_run scenario_file_def)

section \<open>The offsets\<close>

lemma write_corpus_InrD:
  assumes "write_corpus name corpus pc index = Inr (w, r)"
  shows "(pc \<noteq> 0 \<or> corpus = []) \<and> header_fits corpus \<and> w = patched_file name corpus
    \<and> r = (if index then Some (mark (map int (doc_positions 63 0 corpus))) else None)"
proof -
  have pc: "pc \<noteq> 0 \<or> corpus = []"
  proof (rule ccontr)
    assume "\<not> (pc \<noteq> 0 \<or> corpus = [])"
    then have "pc = 0" and "corpus \<noteq> []" by simp_all
    then show False
      using assms write_corpus_zero_progress[of corpus name index] by simp
  qed
  have fits: "header_fits corpus"
    using assms write_corpus_too_large[OF pc, of name index] by auto
  show ?thesis
    using assms write_corpus_ok[OF pc fits, of name index] pc fits by simp
qed

lemma mark_nth:
  "i < length ps \<Longrightarrow>
   mark ps ! i = (if Suc i < length ps \<and> ps ! Suc i = ps ! i then - 1 else ps ! i)"
proof (induction ps arbitrary: i rule: mark.induct)
  case (1 p q ps)
  then show ?case by (cases i) auto
qed auto

lemma body_Cons: "body k (bow # docs) = concat (doc_lines k bow) @ body (Suc k) docs"
  by (simp add: body_def)

lemma doc_positions_eq:
  "doc_positions p k docs = map (\<lambda>i. p + length (body k (take i docs))) [0 ..< length docs]"
proof (induction docs arbitrary: p k)
  case Nil
  then show ?case by simp
next
  case (Cons bow docs)
  have "[0 ..< length (bow # docs)] = 0 # map Suc [0 ..< length docs]"
    by (simp add: upt_conv_Cons map_Suc_upt del: upt_Suc)
  then have "map (\<lambda>i. p + length (body k (take i (bow # docs)))) [0 ..< length (bow # docs)]
      = p # map (\<lambda>i. p + length (concat (doc_lines k bow)) + length (body (Suc k) (take i docs)))
              [0 ..< length docs]"
    by (simp add: body_Cons comp_def body_def del: upt_Suc)
  then show ?case
    by (simp add: Cons.IH del: upt_Suc)
qed

lemma length_doc_positions [simp]: "length (doc_positions p k docs) = length docs"
  by (simp add: doc_positions_eq)

lemma doc_positions_nth:
  "i < length corpus \<Longrightarrow> doc_positions 63 0 corpus ! i = start_pos corpus i"
  by (simp add: doc_positions_eq start_pos_def length_FAKE_HEADER)

text \<open>
  C2: a write with \<^verbatim>\<open>index\<close> set that completes returns one offset per document.
  The slot of document \<open>i\<close> holds the sentinel \<open>-1\<close> when the next document was recorded
  at the same starting position, and the starting position of document \<open>i\<close> otherwise (so
  the slot of the last document of a run of equal positions holds the real position).
  Hence two consecutive slots with equal values hold the sentinel: the list never has two
  equal consecutive values that are not the sentinel.
\<close>

theorem write_corpus_offsets:
  assumes "write_corpus name corpus progress_cnt True = Inr (w, r)"
  shows "\<exists>offs. r = Some offs \<and> length offs = length corpus
     \<and> (\<forall>i < length corpus.
           offs ! i = (if Suc i < length corpus \<and> start_pos corpus (Suc i) = start_pos corpus i
                       then - 1 else int (start_pos corpus i)))
     \<and> (\<forall>i. Suc i < length offs \<longrightarrow> offs ! i = offs ! Suc i \<longrightarrow> offs ! i = - 1)"
proof -
  let ?ps = "map int (doc_positions 63 0 corpus)"
  have r: "r = Some (mark ?ps)"
    using write_corpus_InrD[OF assms] by simp
  have n: "\<And>i. i < length corpus \<Longrightarrow>
      mark ?ps ! i = (if Suc i < length corpus \<and> start_pos corpus (Suc i) = start_pos corpus i
                       then - 1 else int (start_pos corpus i))"
    by (simp add: mark_nth doc_positions_nth cong: conj_cong)
  have d: "\<And>i. Suc i < length corpus \<Longrightarrow> mark ?ps ! i = mark ?ps ! Suc i \<Longrightarrow> mark ?ps ! i = - 1"
  proof -
    fix i assume i: "Suc i < length corpus" and eq: "mark ?ps ! i = mark ?ps ! Suc i"
    show "mark ?ps ! i = - 1"
    proof (rule ccontr)
      assume ne: "mark ?ps ! i \<noteq> - 1"
      from i have i': "i < length corpus" by simp
      from ne n[OF i'] i have a: "mark ?ps ! i = int (start_pos corpus i)"
        and b: "start_pos corpus (Suc i) \<noteq> start_pos corpus i"
        by (auto split: if_splits)
      from ne eq have "mark ?ps ! Suc i \<noteq> - 1" by simp
      with n[OF i] have "mark ?ps ! Suc i = int (start_pos corpus (Suc i))"
        by (auto split: if_splits)
      with a b eq show False by simp
    qed
  qed
  show ?thesis
    using r n d by simp
qed

theorem write_corpus_offsets_witness:
  "write_corpus ''corpus.uci'' scenario 1000 True
     = Inr (scenario_file ''corpus.uci'', Some [63, - 1, 75])
   \<and> start_pos scenario 1 = 75 \<and> start_pos scenario 2 = 75
   \<and> (\<exists>offs. Some [63, - 1, 75] = Some offs \<and> length offs = length scenario
     \<and> (\<forall>i < length scenario.
           offs ! i = (if Suc i < length scenario \<and> start_pos scenario (Suc i) = start_pos scenario i
                       then - 1 else int (start_pos scenario i)))
     \<and> (\<forall>i. Suc i < length offs \<longrightarrow> offs ! i = offs ! Suc i \<longrightarrow> offs ! i = - 1))"
proof -
  have p: "start_pos scenario 1 = 75" "start_pos scenario 2 = 75"
    using doc_positions_nth[of 1 scenario] doc_positions_nth[of 2 scenario]
    by (simp_all add: scenario_positions scenario_counts)
  show ?thesis
    using write_corpus_offsets[OF scenario_run_file] scenario_run_file p by simp
qed

section \<open>Decimal numbers, stripping and lines\<close>

lemma digit_char_is_digit: "is_digit (digit_char d)"
proof -
  have "d mod 10 < length ''0123456789''" by simp
  then have "''0123456789'' ! (d mod 10) \<in> set ''0123456789''" by (rule nth_mem)
  then show ?thesis by (simp only: is_digit_def digit_char_def)
qed

lemma digit_val_digit_char: "d < 10 \<Longrightarrow> digit_val (digit_char d) = int d"
proof -
  assume "d < 10"
  then have "d \<in> {0, 1, 2, 3, 4, 5, 6, 7, 8, 9}" by auto
  then show ?thesis
    by (auto simp add: digit_val_def digit_char_def)
qed

lemma digits_of_digits: "\<forall>c \<in> set (digits_of n). is_digit c"
proof (induction n rule: digits_of.induct)
  case (1 n)
  show ?case
  proof (cases "n < 10")
    case True
    then show ?thesis by (subst digits_of.simps) (simp add: digit_char_is_digit)
  next
    case False
    then show ?thesis using 1 by (subst digits_of.simps) (simp add: digit_char_is_digit)
  qed
qed

lemma digits_of_nonempty: "digits_of n \<noteq> []"
  by (subst digits_of.simps) simp

lemma is_digit_simps:
  "is_digit c \<Longrightarrow> c \<noteq> CHR 0x0A" "is_digit c \<Longrightarrow> \<not> is_space c" "is_digit c \<Longrightarrow> c \<noteq> CHR ''_''"
  "is_digit c \<Longrightarrow> c \<noteq> CHR ''+''" "is_digit c \<Longrightarrow> c \<noteq> CHR ''-''" "is_digit c \<Longrightarrow> c \<noteq> CHR '' ''"
  by (auto simp add: is_digit_def is_space_def)

lemma digits_value_snoc_aux:
  "foldl (\<lambda>a c. 10 * a + digit_val c) 0 (xs @ [c]) = 10 * foldl (\<lambda>a c. 10 * a + digit_val c) 0 xs + digit_val c"
  by simp

lemma digits_of_value: "foldl (\<lambda>a c. 10 * a + digit_val c) 0 (digits_of n) = int n"
proof (induction n rule: digits_of.induct)
  case (1 n)
  show ?case
  proof (cases "n < 10")
    case True
    then show ?thesis by (subst digits_of.simps) (simp add: digit_val_digit_char)
  next
    case False
    then have "foldl (\<lambda>a c. 10 * a + digit_val c) 0 (digits_of (n div 10)) = int (n div 10)"
      using 1 by simp
    then show ?thesis using False
      by (subst digits_of.simps) (simp add: digit_val_digit_char zdiv_int zmod_int)
  qed
qed

lemma digit_groups_digits: "s \<noteq> [] \<Longrightarrow> \<forall>c \<in> set s. is_digit c \<Longrightarrow> digit_groups s"
  by (induction s rule: digit_groups.induct) (auto simp add: is_digit_simps)

lemma filter_digits: "\<forall>c \<in> set s. is_digit c \<Longrightarrow> filter (\<lambda>c. c \<noteq> CHR ''_'') s = s"
  by (induction s) (auto simp add: is_digit_simps)

lemma digits_value_digits_of: "digits_value (digits_of n) = Some (int n)"
  by (simp add: digits_value_def digit_groups_digits digits_of_nonempty digits_of_digits
      filter_digits digits_of_value)

lemma digits_of_no_space: "\<forall>c \<in> set (digits_of n). \<not> is_space c"
  using digits_of_digits[of n] is_digit_simps(2) by blast

lemma digits_of_no_newline: "CHR 0x0A \<notin> set (digits_of n)"
  using digits_of_digits[of n] is_digit_simps(1) by blast

lemma str_int_nonneg: "0 \<le> n \<Longrightarrow> str_int n = digits_of (nat n)"
  by (simp add: str_int_def)

lemma strip_padded:
  assumes s: "s \<noteq> []" and ns: "\<forall>c \<in> set s. \<not> is_space c" and ws: "\<forall>c \<in> set p. is_space c"
  shows "strip (s @ p) = s"
proof -
  have h: "\<not> is_space (hd s)" using s ns by simp
  have 1: "dropWhile is_space (s @ p) = s @ p"
    using s h by (simp add: dropWhile_eq_self_iff)
  have 2: "dropWhile is_space (rev p @ rev s) = dropWhile is_space (rev s)"
    using ws by (intro dropWhile_append2) simp
  have "\<not> is_space (hd (rev s))" using s ns by (simp add: hd_rev)
  then have 3: "dropWhile is_space (rev s) = rev s"
    using s by (simp add: dropWhile_eq_self_iff)
  show ?thesis by (simp add: strip_def 1 2 3)
qed

lemma strip_digits: "strip (digits_of n) = digits_of n"
  using strip_padded[of "digits_of n" "[]"] digits_of_nonempty digits_of_no_space
  by simp

lemma int_of_bytes_digits_of: "int_of_bytes (digits_of n) = Some (int n)"
proof -
  obtain c cs where d: "digits_of n = c # cs"
    using digits_of_nonempty[of n] by (cases "digits_of n") auto
  have "is_digit c" using digits_of_digits[of n] d by simp
  then have "c \<noteq> CHR ''+''" "c \<noteq> CHR ''-''" by (simp_all add: is_digit_simps)
  moreover have "strip (c # cs) = c # cs"
    using strip_digits[of n] by (simp add: d)
  ultimately show ?thesis
    using digits_value_digits_of[of n]
    by (simp add: int_of_bytes_def d)
qed

lemma header_slot_padded:
  "length (str_int n) \<le> 20 \<Longrightarrow>
   header_slot n = str_int n @ replicate (20 - length (str_int n)) (CHR '' '') @ [CHR 0x0A]"
  by (simp add: header_slot_def FAKE_HEADER_def MAX_HEADER_LENGTH_def)

lemma header_slot_value:
  assumes n: "0 \<le> n" and l: "length (str_int n) \<le> 20"
  shows "int_of_bytes (strip (header_slot n)) = Some n"
proof -
  have ws: "\<forall>c \<in> set (replicate (20 - length (str_int n)) (CHR '' '') @ [CHR 0x0A]). is_space c"
    by (auto simp add: is_space_def)
  have "strip (header_slot n) = digits_of (nat n)"
    using strip_padded[OF digits_of_nonempty digits_of_no_space ws, of "nat n"] n l
    by (simp add: header_slot_padded str_int_nonneg)
  then show ?thesis using n by (simp add: int_of_bytes_digits_of)
qed

lemma lines_of_line:
  "CHR 0x0A \<notin> set l \<Longrightarrow> lines_of (l @ CHR 0x0A # rest) = (l @ [CHR 0x0A]) # lines_of rest"
  by (induction l) auto

lemma lines_of_concat:
  "\<forall>l \<in> set ls. \<exists>t. l = t @ [CHR 0x0A] \<and> CHR 0x0A \<notin> set t \<Longrightarrow> lines_of (concat ls @ rest) = ls @ lines_of rest"
proof (induction ls)
  case Nil
  then show ?case by simp
next
  case (Cons l ls)
  then obtain t where t: "l = t @ [CHR 0x0A]" "CHR 0x0A \<notin> set t" by auto
  have "lines_of (concat ls @ rest) = ls @ lines_of rest" using Cons by simp
  then show ?case using lines_of_line[OF t(2), of "concat ls @ rest"] by (simp add: t(1))
qed

lemma str_int_no_newline: "CHR 0x0A \<notin> set (str_int n)"
  by (simp add: str_int_def digits_of_no_newline)

lemma header_slot_line:
  "length (str_int n) \<le> 20 \<Longrightarrow> \<exists>t. header_slot n = t @ [CHR 0x0A] \<and> CHR 0x0A \<notin> set t"
  using str_int_no_newline[of n]
  by (rule_tac x = "str_int n @ replicate (20 - length (str_int n)) (CHR '' '')" in exI)
     (auto simp add: header_slot_padded)

lemma entry_line_line: "\<exists>t. entry_line d x c = t @ [CHR 0x0A] \<and> CHR 0x0A \<notin> set t"
  using str_int_no_newline
  by (rule_tac x = "str_int d @ '' '' @ str_int x @ '' '' @ str_int c" in exI)
     (auto simp add: entry_line_def)

section \<open>The counts in the header and the entry lines\<close>

lemma all_lines_Cons: "all_lines k (bow # docs) = doc_lines k bow @ all_lines (Suc k) docs"
  by (simp add: all_lines_def)

lemma body_all_lines: "body k docs = concat (all_lines k docs)"
proof (induction docs arbitrary: k)
  case Nil
  then show ?case by (simp add: body_def all_lines_def)
next
  case (Cons bow docs)
  then show ?case by (simp add: body_Cons all_lines_Cons)
qed

lemma all_lines_line: "\<forall>l \<in> set (all_lines k docs). \<exists>t. l = t @ [CHR 0x0A] \<and> CHR 0x0A \<notin> set t"
  by (auto simp add: all_lines_def doc_lines_def entry_line_line)

lemma lines_of_body: "lines_of (body k docs) = all_lines k docs"
  using lines_of_concat[OF all_lines_line, of k docs "[]"] by (simp add: body_all_lines)

lemma length_all_lines: "length (all_lines k docs) = length (written_pairs docs)"
proof (induction docs arbitrary: k)
  case Nil
  then show ?case by (simp add: all_lines_def written_pairs_def)
next
  case (Cons bow docs)
  then show ?case using Cons[of "Suc k"]
    by (simp add: all_lines_Cons written_pairs_def doc_lines_def)
qed

lemma nnz_of_eq: "nnz_of docs = int (length (written_pairs docs))"
  by (induction docs) (simp_all add: nnz_of_def written_pairs_def)

lemma terms_after_eq:
  assumes "\<forall>p \<in> set (written_pairs docs). 0 \<le> fst p" and "0 \<le> t"
  shows "terms_after t docs = max t (observed_terms docs)"
  using assms
proof (induction docs arbitrary: t)
  case Nil
  then show ?case by (simp add: terms_after_def observed_terms_def written_pairs_def)
next
  case (Cons bow docs)
  let ?v = "int_vector bow"
  have ids: "\<forall>p \<in> set (written_pairs docs). 0 \<le> fst p" and idv: "\<forall>p \<in> set ?v. 0 \<le> fst p"
    using Cons.prems(1) by (auto simp add: written_pairs_def)
  have t': "0 \<le> max t (1 + max_id_of bow)" using Cons.prems(2) by simp
  have step: "terms_after t (bow # docs) = max (max t (1 + max_id_of bow)) (observed_terms docs)"
    using Cons.IH[OF ids t'] by (simp add: terms_after_def)
  have wp: "written_pairs (bow # docs) = ?v @ written_pairs docs"
    by (simp add: written_pairs_def)
  show ?case
  proof (cases "?v = []")
    case True
    then show ?thesis using step Cons.prems(2)
      by (simp add: observed_terms_def wp max_id_of_def)
  next
    case v: False
    show ?thesis
    proof (cases "written_pairs docs = []")
      case True
      then show ?thesis using step v Cons.prems(2)
        by (simp add: observed_terms_def wp max_id_of_def)
    next
      case False
      have "Max (fst ` set ?v \<union> fst ` set (written_pairs docs))
          = max (Max (fst ` set ?v)) (Max (fst ` set (written_pairs docs)))"
        using v False by (intro Max_Un) auto
      then show ?thesis using step v False
        by (simp add: observed_terms_def wp max_id_of_def image_Un)
    qed
  qed
qed

lemma patched_file_parts:
  assumes fits: "header_fits corpus"
  shows "take 63 (fout (patched_file name corpus))
       = header_slot (int (length corpus)) @ header_slot (terms_after 0 corpus)
         @ header_slot (nnz_of corpus)"
    and "drop 63 (fout (patched_file name corpus)) = body 0 corpus"
    and "take 21 (drop 42 (fout (patched_file name corpus))) = header_slot (nnz_of corpus)"
  using fits by (simp_all add: patched_file_def header_fits_def length_header_slot)

lemma written_ids_nonneg:
  assumes "\<forall>bow \<in> set corpus. \<forall>(x, y) \<in> set bow. 0 \<le> x"
  shows "\<forall>p \<in> set (written_pairs corpus). 0 \<le> fst p"
  using assms by (fastforce simp add: written_pairs_def int_vector_def)

lemma read_count_header_slot:
  assumes "0 \<le> n" and "n < 2 ^ 63" and "length (str_int n) \<le> 20"
  shows "read_count (header_slot n) = Inr n"
  using header_slot_value[OF assms(1,3)] assms(1,2)
  by (simp add: read_count_def long_long_def)

lemma readable_header:
  assumes a: "0 \<le> a" "a < 2 ^ 63" "length (str_int a) \<le> 20"
    and b: "0 \<le> b" "b < 2 ^ 63" "length (str_int b) \<le> 20"
    and c: "0 \<le> c" "c < 2 ^ 63" "length (str_int c) \<le> 20"
  shows "UciReader_init inp (header_slot a @ header_slot b @ header_slot c @ rest)
     = Inr \<lparr>num_docs = a, num_terms = b, num_nnz = c, input = inp\<rparr>"
proof -
  have l: "\<forall>l \<in> set [header_slot a, header_slot b, header_slot c].
      \<exists>t. l = t @ [CHR 0x0A] \<and> CHR 0x0A \<notin> set t"
    using header_slot_line[OF a(3)] header_slot_line[OF b(3)] header_slot_line[OF c(3)] by simp
  have "lines_of (header_slot a @ header_slot b @ header_slot c @ rest)
      = [header_slot a, header_slot b, header_slot c] @ lines_of rest"
    using lines_of_concat[OF l, of rest] by simp
  then show ?thesis
    using read_count_header_slot[OF a] read_count_header_slot[OF b] read_count_header_slot[OF c]
    by (simp add: UciReader_init_def)
qed

lemma observed_terms_nonneg:
  assumes ids: "\<forall>p \<in> set (written_pairs corpus). 0 \<le> fst p"
  shows "0 \<le> observed_terms corpus"
proof (cases "written_pairs corpus = []")
  case True
  then show ?thesis by (simp add: observed_terms_def)
next
  case False
  then obtain p where p: "p \<in> set (written_pairs corpus)"
    by (cases "written_pairs corpus") auto
  have "fst p \<le> Max (fst ` set (written_pairs corpus))"
    using p by (intro Max_ge) auto
  moreover have "0 \<le> fst p" using ids p by simp
  ultimately show ?thesis using False by (simp add: observed_terms_def)
qed

lemma terms_after_observed:
  assumes "\<forall>bow \<in> set corpus. \<forall>(x, y) \<in> set bow. 0 \<le> x"
  shows "terms_after 0 corpus = observed_terms corpus"
  using terms_after_eq[OF written_ids_nonneg[OF assms], of 0]
    observed_terms_nonneg[OF written_ids_nonneg[OF assms]]
  by simp

text \<open>
  What a completed write leaves in the header when the feature ids are non-negative: its
  first 63 bytes hold, each at the start of a slot of 21 bytes and followed by what is
  left of the blank line, the number of documents, one more than the largest feature id
  among the written pairs (\<open>0\<close> without pairs), and the number of entry lines written.
  When each count has at most \<open>MAX_HEADER_LENGTH\<close> digits and is in the range of a
  \<^verbatim>\<open>long long\<close>, \<^verbatim>\<open>UciReader\<close> reads exactly these counts back from the file.
\<close>

lemma write_corpus_header_counts:
  assumes run: "write_corpus name corpus progress_cnt index = Inr (w, r)"
    and ids: "\<forall>bow \<in> set corpus. \<forall>(x, y) \<in> set bow. 0 \<le> x"
  shows "take 63 (fout w)
       = header_slot (int (length corpus)) @ header_slot (observed_terms corpus)
         @ header_slot (int (length (lines_of (drop 63 (fout w)))))
     \<and> length (lines_of (drop 63 (fout w))) = length (written_pairs corpus)
     \<and> (length (str_int (int (length corpus))) \<le> MAX_HEADER_LENGTH
        \<and> length (str_int (observed_terms corpus)) \<le> MAX_HEADER_LENGTH
        \<and> length (str_int (int (length (written_pairs corpus)))) \<le> MAX_HEADER_LENGTH
        \<and> int (length corpus) < 2 ^ 63 \<and> observed_terms corpus < 2 ^ 63
        \<and> int (length (written_pairs corpus)) < 2 ^ 63
        \<longrightarrow> UciReader_init inp (fout w)
            = Inr \<lparr>num_docs = int (length corpus), num_terms = observed_terms corpus,
                   num_nnz = int (length (written_pairs corpus)), input = inp\<rparr>)"
proof -
  from write_corpus_InrD[OF run]
  have fits: "header_fits corpus" and w: "w = patched_file name corpus" by simp_all
  have t: "terms_after 0 corpus = observed_terms corpus"
    by (rule terms_after_observed[OF ids])
  have n: "length (lines_of (drop 63 (fout w))) = length (written_pairs corpus)"
    by (simp add: w patched_file_parts(2)[OF fits] lines_of_body length_all_lines)
  have h: "take 63 (fout w)
       = header_slot (int (length corpus)) @ header_slot (observed_terms corpus)
         @ header_slot (int (length (lines_of (drop 63 (fout w)))))"
    using n by (simp add: w patched_file_parts(1)[OF fits] t nnz_of_eq)
  have rb: "UciReader_init inp (fout w)
            = Inr \<lparr>num_docs = int (length corpus), num_terms = observed_terms corpus,
                   num_nnz = int (length (written_pairs corpus)), input = inp\<rparr>"
    if "length (str_int (int (length corpus))) \<le> MAX_HEADER_LENGTH"
      "length (str_int (observed_terms corpus)) \<le> MAX_HEADER_LENGTH"
      "length (str_int (int (length (written_pairs corpus)))) \<le> MAX_HEADER_LENGTH"
      "int (length corpus) < 2 ^ 63" "observed_terms corpus < 2 ^ 63"
      "int (length (written_pairs corpus)) < 2 ^ 63"
  proof -
    have "fout w = header_slot (int (length corpus)) @ header_slot (observed_terms corpus)
         @ header_slot (int (length (written_pairs corpus))) @ body 0 corpus"
      by (simp add: w patched_file_def t nnz_of_eq)
    then show ?thesis
      using that observed_terms_nonneg[OF written_ids_nonneg[OF ids]]
        readable_header[of "int (length corpus)" "observed_terms corpus"
          "int (length (written_pairs corpus))" inp "body 0 corpus"]
      by (simp add: MAX_HEADER_LENGTH_def)
  qed
  show ?thesis using h n rb by blast
qed



lemma record_offset_keeps:
  "record_offset s = Inr s1 \<Longrightarrow>
   wr s1 = wr s \<and> n_terms s1 = n_terms s \<and> n_nnz s1 = n_nnz s \<and> docno s1 = docno s"
  by (auto simp add: record_offset_def Let_def split: if_splits)

lemma write_doc_with_hands_int_vector:
  assumes "write_doc_with helper progress_cnt index n bow s = Inr s'"
  shows "(wr s', n_terms s', n_nnz s')
       = (let (w', max_id, veclen) = helper (wr s) (int n) (int_vector bow)
          in (w', max (n_terms s) (1 + max_id), n_nnz s + veclen))"
proof (cases index)
  case False
  then show ?thesis
    using assms
    by (auto simp add: write_doc_with_def Let_def split: if_splits prod.splits)
next
  case True
  from assms True obtain s1 where s1: "record_offset (s\<lparr>docno := int n\<rparr>) = Inr s1"
    by (cases "record_offset (s\<lparr>docno := int n\<rparr>)")
       (auto simp add: write_doc_with_def Let_def split: if_splits)
  from record_offset_keeps[OF s1]
  have k: "wr s1 = wr s" "n_terms s1 = n_terms s" "n_nnz s1 = n_nnz s" "docno s1 = int n"
    by simp_all
  show ?thesis
    using assms True s1 k
    by (auto simp add: write_doc_with_def Let_def split: if_splits prod.splits)
qed

lemma int_vector_no_zero: "\<forall>(x, c) \<in> set (int_vector bow). c \<noteq> 0"
  by (auto simp add: int_vector_def)

text \<open>
  C6: one pass of the loop hands to \<^verbatim>\<open>write_vector\<close>, whatever this method does with
  it, the vector made of the pairs of the document whose weight coerced by \<^verbatim>\<open>int\<close> is
  not zero, each with its coerced weight, in the order of the document; no pair of the
  vector has the weight zero; and the new writer and counts are what the method returns
  for this vector. When a write completes, the entry lines of the file (what follows the
  63 bytes of the header) are, document after document, one line for each pair of the
  document whose coerced weight is not zero, carrying the coerced weight, in increasing
  order of the feature id. A pair whose coerced weight is zero has no line. The third
  header line holds the number of pairs of non-zero coerced weight, which is the number of
  entry lines.
\<close>

theorem write_corpus_zero_drop:
  assumes run: "write_corpus name corpus progress_cnt index = Inr (w, r)"
  shows "(\<forall>helper idx n bow s s'.
            write_doc_with helper progress_cnt idx n bow s = Inr s' \<longrightarrow>
            (wr s', n_terms s', n_nnz s')
              = (let (w', max_id, veclen) = helper (wr s) (int n) (int_vector bow)
                 in (w', max (n_terms s) (1 + max_id), n_nnz s + veclen)))
     \<and> (\<forall>bow. int_vector bow
                = map (\<lambda>(x, y). (x, py_int y)) (filter (\<lambda>(x, y). py_int y \<noteq> 0) bow)
              \<and> (\<forall>(x, c) \<in> set (int_vector bow). c \<noteq> 0))
     \<and> lines_of (drop 63 (fout w))
       = concat (map (\<lambda>(n, bow). map (\<lambda>(x, c). entry_line (int n) x c)
                   (sort_key fst (map (\<lambda>(x, y). (x, py_int y))
                                      (filter (\<lambda>(x, y). py_int y \<noteq> 0) bow))))
                 (enumerate 0 corpus))
     \<and> length (lines_of (drop 63 (fout w)))
       = length (filter (\<lambda>(x, y). py_int y \<noteq> 0) (concat corpus))
     \<and> take 21 (drop 42 (fout w))
       = header_slot (int (length (filter (\<lambda>(x, y). py_int y \<noteq> 0) (concat corpus))))"
proof -
  from write_corpus_InrD[OF run]
  have fits: "header_fits corpus" and w: "w = patched_file name corpus" by simp_all
  have b: "lines_of (drop 63 (fout w)) = all_lines 0 corpus"
    by (simp add: w patched_file_parts(2)[OF fits] lines_of_body)
  have c: "length (written_pairs corpus)
      = length (filter (\<lambda>(x, y). py_int y \<noteq> 0) (concat corpus))"
    by (induction corpus) (simp_all add: written_pairs_def int_vector_def)
  have h: "take 21 (drop 42 (fout w)) = header_slot (int (length (written_pairs corpus)))"
    by (simp add: w patched_file_parts(3)[OF fits] nnz_of_eq)
  have lines: "lines_of (drop 63 (fout w))
       = concat (map (\<lambda>(n, bow). map (\<lambda>(x, c). entry_line (int n) x c)
                   (sort_key fst (map (\<lambda>(x, y). (x, py_int y))
                                      (filter (\<lambda>(x, y). py_int y \<noteq> 0) bow))))
                 (enumerate 0 corpus))"
    using b by (simp add: all_lines_def doc_lines_def int_vector_def)
  have len: "length (lines_of (drop 63 (fout w)))
       = length (filter (\<lambda>(x, y). py_int y \<noteq> 0) (concat corpus))"
    using b c by (simp add: length_all_lines)
  have hdr: "take 21 (drop 42 (fout w))
       = header_slot (int (length (filter (\<lambda>(x, y). py_int y \<noteq> 0) (concat corpus))))"
    using h c by simp
  have hands: "\<forall>helper idx n bow s s'.
            write_doc_with helper progress_cnt idx n bow s = Inr s' \<longrightarrow>
            (wr s', n_terms s', n_nnz s')
              = (let (w', max_id, veclen) = helper (wr s) (int n) (int_vector bow)
                 in (w', max (n_terms s) (1 + max_id), n_nnz s + veclen))"
    using write_doc_with_hands_int_vector by blast
  have vec: "\<forall>bow. int_vector bow
                = map (\<lambda>(x, y). (x, py_int y)) (filter (\<lambda>(x, y). py_int y \<noteq> 0) bow)
              \<and> (\<forall>(x, c) \<in> set (int_vector bow). c \<noteq> 0)"
    using int_vector_no_zero by (simp add: int_vector_def)
  show ?thesis
    using hands vec lines len hdr by blast
qed

lemma py_int_examples:
  "py_int 0 = 0" "py_int (1 / 2) = 0" "py_int 3 = 3" "py_int (- (3 / 2)) = - 1"
  by (simp_all add: py_int_def floor_eq_iff ceiling_eq_iff)

lemma fractions_vectors:
  "int_vector [(0, 0), (1, 1 / 2), (2, 3)] = [(2, 3)]" "int_vector [(4, - (3 / 2))] = [(4, - 1)]"
  by (simp_all add: int_vector_def py_int_examples)

lemma str_int_more: "str_int 4 = ''4''" "str_int 5 = ''5''" "str_int (- 1) = ''-1''"
  by (simp_all add: str_int_def digits_of.simps digit_char_def)

lemma fractions_lines:
  "doc_lines 0 [(0, 0), (1, 1 / 2), (2, 3)] = [''0 2 3'' @ [CHR 0x0A]]"
  "doc_lines (Suc 0) [(4, - (3 / 2))] = [''1 4 -1'' @ [CHR 0x0A]]"
  by (simp_all add: doc_lines_def fractions_vectors entry_line_def str_int_0 str_int_digit
      str_int_more)

lemma fractions_counts:
  "terms_after 0 fractions = 5" "nnz_of fractions = 2" "length fractions = 2"
  by (simp_all add: fractions_def terms_after_def nnz_of_def max_id_of_def fractions_vectors)

lemma fractions_run:
  "write_corpus name fractions 1000 False = Inr (fractions_file name, None)"
proof -
  have fits: "header_fits fractions"
    by (simp add: header_fits_def fractions_counts str_int_digit str_int_more)
  have b: "body 0 fractions = ''0 2 3'' @ [CHR 0x0A] @ ''1 4 -1'' @ [CHR 0x0A]"
    by (simp add: fractions_def body_def fractions_lines)
  have h: "header_slot 2 = ''2'' @ replicate 19 (CHR '' '') @ [CHR 0x0A]"
    "header_slot 5 = ''5'' @ replicate 19 (CHR '' '') @ [CHR 0x0A]"
    by (simp_all add: header_slot_def str_int_digit str_int_more FAKE_HEADER_def
        MAX_HEADER_LENGTH_def)
  show ?thesis
    using write_corpus_ok[of 1000 fractions name False, OF _ fits]
    by (simp add: patched_file_def fractions_counts h str_int_digit b fractions_file_def)
qed

text \<open>A method that writes nothing and returns the number of pairs it is handed.\<close>

lemma counting_pass:
  "write_doc_with (\<lambda>w d v. (w, - 1, int (length v))) 1000 False 0 [(0, 0), (1, 1 / 2), (2, 3)]
       \<lparr>wr = UciWriter ''corpus.uci'', n_terms = 0, n_nnz = 0, docno = - 1, poslast = - 1,
        offsets = []\<rparr>
     = Inr \<lparr>wr = UciWriter ''corpus.uci'', n_terms = 0, n_nnz = 1, docno = 0, poslast = - 1,
            offsets = []\<rparr>"
  by (simp add: write_doc_with_def fractions_vectors)

theorem write_corpus_zero_drop_witness:
  "write_corpus ''corpus.uci'' fractions 1000 False = Inr (fractions_file ''corpus.uci'', None)
   \<and> write_doc_with (\<lambda>w d v. (w, - 1, int (length v))) 1000 False 0 [(0, 0), (1, 1 / 2), (2, 3)]
       \<lparr>wr = UciWriter ''corpus.uci'', n_terms = 0, n_nnz = 0, docno = - 1, poslast = - 1,
        offsets = []\<rparr>
     = Inr \<lparr>wr = UciWriter ''corpus.uci'', n_terms = 0, n_nnz = 1, docno = 0, poslast = - 1,
            offsets = []\<rparr>
   \<and> int_vector [(0, 0), (1, 1 / 2), (2, 3)] = [(2, 3)]
   \<and> list_all (\<lambda>(x, c). c \<noteq> 0) (int_vector [(0, 0), (1, 1 / 2), (2, 3)])
   \<and> lines_of (drop 63 (fout (fractions_file ''corpus.uci'')))
       = [''0 2 3'' @ [CHR 0x0A], ''1 4 -1'' @ [CHR 0x0A]]
   \<and> length (filter (\<lambda>(x, y). py_int y \<noteq> 0) (concat fractions)) = 2
   \<and> take 21 (drop 42 (fout (fractions_file ''corpus.uci''))) = header_slot 2"
proof -
  have c: "length (filter (\<lambda>(x, y). py_int y \<noteq> 0) (concat fractions)) = 2"
    by (simp add: fractions_def py_int_examples)
  have l: "concat (map (\<lambda>(n, bow). map (\<lambda>(x, c). entry_line (int n) x c)
                   (sort_key fst (map (\<lambda>(x, y). (x, py_int y))
                                      (filter (\<lambda>(x, y). py_int y \<noteq> 0) bow))))
                 (enumerate 0 fractions))
       = [''0 2 3'' @ [CHR 0x0A], ''1 4 -1'' @ [CHR 0x0A]]"
    by (simp add: fractions_def py_int_examples entry_line_def str_int_0 str_int_digit
        str_int_more)
  have v: "int_vector [(0, 0), (1, 1 / 2), (2, 3)] = [(2, 3)]"
    by (rule fractions_vectors(1))
  from write_corpus_zero_drop[OF fractions_run, of "''corpus.uci''"]
  have "lines_of (drop 63 (fout (fractions_file ''corpus.uci'')))
       = [''0 2 3'' @ [CHR 0x0A], ''1 4 -1'' @ [CHR 0x0A]]"
    and "take 21 (drop 42 (fout (fractions_file ''corpus.uci''))) = header_slot 2"
    by (simp_all only: c l) simp_all
  then show ?thesis
    using fractions_run counting_pass c v by simp
qed

section \<open>The width of a header value\<close>

lemma str_int_overlong:
  "str_int 100000000000000000000 = ''100000000000000000000''"
  "str_int 99999999999999999999 = ''99999999999999999999''"
  by (simp_all add: str_int_def digits_of.simps digit_char_def)

lemma overlong_vector: "int_vector [(99999999999999999999, 1)] = [(99999999999999999999, 1)]"
  by (simp add: int_vector_def py_int_def)

lemma overlong_counts:
  "terms_after 0 overlong = 100000000000000000000" "nnz_of overlong = 1" "length overlong = 1"
  by (simp_all add: overlong_def terms_after_def nnz_of_def max_id_of_def overlong_vector)

lemma overlong_run:
  "write_corpus name overlong 1000 False = Inr (overlong_file name, None)"
proof -
  have fits: "header_fits overlong"
    by (simp add: header_fits_def overlong_counts str_int_digit str_int_overlong)
  have b: "body 0 overlong = ''0 99999999999999999999 1'' @ [CHR 0x0A]"
    by (simp add: overlong_def body_def doc_lines_def overlong_vector entry_line_def
        str_int_0 str_int_digit str_int_overlong)
  have h: "header_slot 1 = ''1'' @ replicate 19 (CHR '' '') @ [CHR 0x0A]"
    "header_slot 100000000000000000000 = ''100000000000000000000''"
    by (simp_all add: header_slot_def str_int_digit str_int_overlong FAKE_HEADER_def
        MAX_HEADER_LENGTH_def)
  show ?thesis
    using write_corpus_ok[of 1000 overlong name False, OF _ fits]
    by (simp add: patched_file_def overlong_counts h str_int_digit b overlong_file_def)
qed

lemma overlong_lines:
  "lines_of (fout (overlong_file name))
     = [(''1'' @ replicate 19 (CHR '' '')) @ [CHR 0x0A],
        (''1000000000000000000001'' @ replicate 19 (CHR '' '')) @ [CHR 0x0A],
        ''0 99999999999999999999 1'' @ [CHR 0x0A]]"
proof -
  let ?l1 = "''1'' @ replicate 19 (CHR '' '')"
  let ?l2 = "''1000000000000000000001'' @ replicate 19 (CHR '' '')"
  let ?l3 = "''0 99999999999999999999 1''"
  have f: "fout (overlong_file name)
      = ?l1 @ CHR 0x0A # (?l2 @ CHR 0x0A # (?l3 @ CHR 0x0A # []))"
    by (simp add: overlong_file_def)
  show ?thesis
    unfolding f by (subst lines_of_line, simp)+ simp
qed

lemma overlong_header_lines:
  "lines_of (take 63 (fout (overlong_file name)))
     = [(''1'' @ replicate 19 (CHR '' '')) @ [CHR 0x0A],
        (''1000000000000000000001'' @ replicate 19 (CHR '' '')) @ [CHR 0x0A]]"
proof -
  let ?l1 = "''1'' @ replicate 19 (CHR '' '')"
  let ?l2 = "''1000000000000000000001'' @ replicate 19 (CHR '' '')"
  have f: "take 63 (fout (overlong_file name)) = ?l1 @ CHR 0x0A # (?l2 @ CHR 0x0A # [])"
    by (simp add: overlong_file_def)
  show ?thesis
    unfolding f by (subst lines_of_line, simp)+ simp
qed

lemma overlong_line_values:
  "int_of_bytes (strip ((''1'' @ replicate 19 (CHR '' '')) @ [CHR 0x0A])) = Some 1"
  "int_of_bytes (strip ((''1000000000000000000001'' @ replicate 19 (CHR '' '')) @ [CHR 0x0A]))
     = Some 1000000000000000000001"
proof -
  have d: "digits_of (Suc 0) = ''1''"
    "digits_of 1000000000000000000001 = ''1000000000000000000001''"
    by (simp_all add: digits_of.simps digit_char_def)
  have ws: "\<forall>c \<in> set (replicate 19 (CHR '' '') @ [CHR 0x0A]). is_space c"
    by (auto simp add: is_space_def)
  show "int_of_bytes (strip ((''1'' @ replicate 19 (CHR '' '')) @ [CHR 0x0A])) = Some 1"
    using strip_padded[OF digits_of_nonempty digits_of_no_space ws, of 1]
      int_of_bytes_digits_of[of 1] by (simp add: d)
  show "int_of_bytes (strip ((''1000000000000000000001'' @ replicate 19 (CHR '' '')) @ [CHR 0x0A]))
     = Some 1000000000000000000001"
    using strip_padded[OF digits_of_nonempty digits_of_no_space ws, of 1000000000000000000001]
      int_of_bytes_digits_of[of 1000000000000000000001] by (simp add: d)
qed

lemma overlong_read_counts:
  "read_count ((''1'' @ replicate 19 (CHR '' '')) @ [CHR 0x0A]) = Inr 1"
  "read_count ((''1000000000000000000001'' @ replicate 19 (CHR '' '')) @ [CHR 0x0A])
     = Inl OverflowError"
  by (simp_all only: read_count_def overlong_line_values option.case)
     (simp_all add: long_long_def)

lemma overlong_observed: "observed_terms overlong = 100000000000000000000"
  by (simp add: observed_terms_def written_pairs_def overlong_def overlong_vector)

text \<open>
  C4, the code at the failing input: \<open>num_terms\<close> has 21 digits, one more than
  \<open>MAX_HEADER_LENGTH\<close>, and the write raises nothing: \<^verbatim>\<open>update_headers\<close> compares with the
  length of \<^verbatim>\<open>FAKE_HEADER\<close>, which counts the newline. The value takes the place of the
  newline of the second header line, and the file cannot be opened again: its second line
  now reads as a number of 22 digits, too large for a count.
\<close>

theorem update_headers_accepts_21_digits:
  "MAX_HEADER_LENGTH = 20
   \<and> length (str_int 100000000000000000000) = 21
   \<and> write_corpus ''corpus.uci'' overlong 1000 False = Inr (overlong_file ''corpus.uci'', None)
   \<and> UciReader_init ''corpus.uci'' (fout (overlong_file ''corpus.uci'')) = Inl OverflowError"
proof -
  have "UciReader_init ''corpus.uci'' (fout (overlong_file ''corpus.uci'')) = Inl OverflowError"
    by (simp only: UciReader_init_def overlong_lines Let_def list.case overlong_read_counts
        sum.case)
  then show ?thesis
    by (simp add: overlong_run MAX_HEADER_LENGTH_def str_int_overlong)
qed

text \<open>
  C3, the code at the failing input, the one of C4: the write of a corpus of one document
  with the feature id \<open>99999999999999999999\<close> completes, and \<open>num_terms\<close> is
  \<open>100000000000000000000\<close>; but the 63 bytes of the header are two lines, not three, and
  the second, which should give \<open>num_terms\<close>, gives \<open>1000000000000000000001\<close>: the digits
  of \<open>num_terms\<close> run into those of \<open>num_nnz\<close>.
\<close>

theorem write_corpus_header_two_lines:
  "write_corpus ''corpus.uci'' overlong 1000 False = Inr (overlong_file ''corpus.uci'', None)
   \<and> length overlong = 1
   \<and> observed_terms overlong = 100000000000000000000
   \<and> length (written_pairs overlong) = 1
   \<and> lines_of (take 63 (fout (overlong_file ''corpus.uci'')))
       = [(''1'' @ replicate 19 (CHR '' '')) @ [CHR 0x0A],
          (''1000000000000000000001'' @ replicate 19 (CHR '' '')) @ [CHR 0x0A]]
   \<and> int_of_bytes (strip ((''1000000000000000000001'' @ replicate 19 (CHR '' '')) @ [CHR 0x0A]))
       = Some 1000000000000000000001"
  by (simp only: overlong_run overlong_observed overlong_header_lines overlong_line_values
      overlong_counts)
     (simp add: written_pairs_def overlong_def overlong_vector)

section \<open>The layout of the header\<close>

lemma update_headers_raises_iff:
  "(\<exists>e. update_headers w a b c = Inl e) \<longleftrightarrow>
   length (str_int a) > length FAKE_HEADER \<or> length (str_int b) > length FAKE_HEADER
   \<or> length (str_int c) > length FAKE_HEADER"
  by (simp add: update_headers_def)

lemma header_lines: "lines_of (FAKE_HEADER @ FAKE_HEADER @ FAKE_HEADER) = [FAKE_HEADER, FAKE_HEADER, FAKE_HEADER]"
proof -
  have n: "CHR 0x0A \<notin> set (replicate MAX_HEADER_LENGTH (CHR '' ''))" by simp
  show ?thesis
    unfolding FAKE_HEADER_def
    using lines_of_line[OF n] by simp
qed

text \<open>
  C5, as stated, fails: a header line is \<open>MAX_HEADER_LENGTH = 20\<close> spaces, the width
  reserved for a value, and a newline. In the file written for the scenario, whose three
  counts are all \<open>3\<close>, the byte at offset \<open>1 * MAX_HEADER_LENGTH\<close> is the newline of the
  first header line, and the second value stands one byte further, at the start of the
  second line.
\<close>

theorem header_offset_not_multiple_of_width:
  "MAX_HEADER_LENGTH = 20
   \<and> FAKE_HEADER = replicate MAX_HEADER_LENGTH (CHR '' '') @ [CHR 0x0A]
   \<and> write_corpus ''corpus.uci'' scenario 1000 True
     = Inr (scenario_file ''corpus.uci'', Some [63, - 1, 75])
   \<and> take 1 (drop (1 * MAX_HEADER_LENGTH) (fout (scenario_file ''corpus.uci''))) = [CHR 0x0A]
   \<and> take 1 (drop (1 * MAX_HEADER_LENGTH + 1) (fout (scenario_file ''corpus.uci''))) = ''3''"
  by (simp add: scenario_run_file FAKE_HEADER_def)
     (simp add: scenario_file_def MAX_HEADER_LENGTH_def)

text \<open>
  C5, amended: the blank header that \<^verbatim>\<open>write_headers\<close> writes is exactly three lines, each
  of \<open>MAX_HEADER_LENGTH\<close> spaces and a newline. When the counts are patched into a file that
  starts with this header and no error is raised, value \<open>i\<close> (\<open>i = 0, 1, 2\<close>) stands at
  the byte offset \<open>i * (MAX_HEADER_LENGTH + 1)\<close>, the width of a header line with its
  newline, which is where header line \<open>i\<close> starts; what follows the header is unchanged.
\<close>

theorem header_layout:
  assumes f: "fout w = fout (write_headers (UciWriter name)) @ rest"
    and u: "update_headers w a b c = Inr w'"
  shows "fout (write_headers (UciWriter name))
       = concat (replicate 3 (replicate MAX_HEADER_LENGTH (CHR '' '') @ [CHR 0x0A]))
     \<and> lines_of (fout (write_headers (UciWriter name)))
       = replicate 3 (replicate MAX_HEADER_LENGTH (CHR '' '') @ [CHR 0x0A])
     \<and> (\<forall>i < 3. take (length ([str_int a, str_int b, str_int c] ! i))
                    (drop (i * (MAX_HEADER_LENGTH + 1)) (fout w'))
                 = [str_int a, str_int b, str_int c] ! i)
     \<and> (\<forall>i < 3. length (concat (take i (lines_of (fout (write_headers (UciWriter name))))))
                 = i * (MAX_HEADER_LENGTH + 1))
     \<and> drop (3 * (MAX_HEADER_LENGTH + 1)) (fout w') = rest"
proof -
  have h: "fout (write_headers (UciWriter name)) = FAKE_HEADER @ FAKE_HEADER @ FAKE_HEADER"
    by (simp add: write_headers_eq)
  have l: "length (str_int a) \<le> 21" "length (str_int b) \<le> 21" "length (str_int c) \<le> 21"
    using u update_headers_raises_iff[of w a b c] by (auto simp add: length_FAKE_HEADER)
  have f': "fout w = FAKE_HEADER @ FAKE_HEADER @ FAKE_HEADER @ rest"
    using f h by simp
  have w': "fout w' = header_slot a @ header_slot b @ header_slot c @ rest"
    using update_headers_ok[OF f' l] u by auto
  have s: "\<And>n t. take (length (str_int n)) (header_slot n @ t) = str_int n"
    by (simp add: header_slot_def)
  have s0: "\<And>n. take (length (str_int n)) (header_slot n) = str_int n"
    by (simp add: header_slot_def)
  have 0: "take (length (str_int a)) (fout w') = str_int a"
    by (simp only: w' s)
  have 1: "take (length (str_int b)) (drop 21 (fout w')) = str_int b"
    using l by (simp add: w' length_header_slot s s0)
  have 2: "take (length (str_int c)) (drop 42 (fout w')) = str_int c"
    using l by (simp add: w' length_header_slot s s0)
  have 3: "drop 63 (fout w') = rest"
    using l by (simp add: w' length_header_slot)
  have i3: "\<And>i P. (\<forall>i < (3::nat). P i) \<longleftrightarrow> P 0 \<and> P 1 \<and> P 2"
    by (auto simp add: numeral_3_eq_3 less_Suc_eq numeral_2_eq_2)
  have a: "fout (write_headers (UciWriter name))
       = concat (replicate 3 (replicate MAX_HEADER_LENGTH (CHR '' '') @ [CHR 0x0A]))"
    by (simp add: h FAKE_HEADER_def numeral_3_eq_3)
  have b: "lines_of (fout (write_headers (UciWriter name)))
       = replicate 3 (replicate MAX_HEADER_LENGTH (CHR '' '') @ [CHR 0x0A])"
    by (simp add: h header_lines) (simp add: FAKE_HEADER_def numeral_3_eq_3)
  have c: "\<forall>i < 3. length (concat (take i (lines_of (fout (write_headers (UciWriter name))))))
                 = i * (MAX_HEADER_LENGTH + 1)"
    by (simp add: i3 h header_lines length_FAKE_HEADER MAX_HEADER_LENGTH_def)
  have d: "\<forall>i < 3. take (length ([str_int a, str_int b, str_int c] ! i))
                    (drop (i * (MAX_HEADER_LENGTH + 1)) (fout w'))
                 = [str_int a, str_int b, str_int c] ! i"
    using 0 1 2 by (simp add: i3 MAX_HEADER_LENGTH_def)
  show ?thesis
    using a b c d 3 by (simp add: MAX_HEADER_LENGTH_def)
qed

theorem header_layout_witness:
  "fout (write_headers (UciWriter ''corpus.uci''))
     = fout (write_headers (UciWriter ''corpus.uci'')) @ []
   \<and> update_headers (write_headers (UciWriter ''corpus.uci'')) 3 3 3 = Inr patched_blank
   \<and> take 1 (drop 0 (fout patched_blank)) = ''3''
   \<and> take 1 (drop 21 (fout patched_blank)) = ''3''
   \<and> take 1 (drop 42 (fout patched_blank)) = ''3''
   \<and> drop 63 (fout patched_blank) = []"
proof -
  let ?w = "write_headers (UciWriter ''corpus.uci'')"
  have f: "fout ?w = fout ?w @ []" by simp
  have f': "fout ?w = FAKE_HEADER @ FAKE_HEADER @ FAKE_HEADER @ []"
    by (simp add: write_headers_eq)
  have u: "update_headers ?w 3 3 3 = Inr patched_blank"
    using update_headers_ok[OF f', of 3 3 3]
    by (simp add: str_int_digit patched_blank_def)
  have i: "(0::nat) < 3" "(1::nat) < 3" "(2::nat) < 3" by simp_all
  from header_layout[OF f u]
  have a: "\<forall>i < 3. take (length ([str_int 3, str_int 3, str_int 3] ! i))
                    (drop (i * (MAX_HEADER_LENGTH + 1)) (fout patched_blank))
                 = [str_int 3, str_int 3, str_int 3] ! i"
    and d: "drop (3 * (MAX_HEADER_LENGTH + 1)) (fout patched_blank) = []"
    by blast+
  have "take 1 (drop 0 (fout patched_blank)) = ''3''"
    "take 1 (drop 21 (fout patched_blank)) = ''3''"
    "take 1 (drop 42 (fout patched_blank)) = ''3''"
    using a[rule_format, OF i(1)] a[rule_format, OF i(2)] a[rule_format, OF i(3)]
    by (simp_all add: str_int_digit MAX_HEADER_LENGTH_def)
  then show ?thesis
    using u d by (simp add: MAX_HEADER_LENGTH_def)
qed

section \<open>The vocabulary file\<close>

lemma vocab_line_fun:
  "vocab_line d = (\<lambda>i. (case map_of d i of None \<Rightarrow> ''---'' | Some word \<Rightarrow> word) @ [CHR 0x0A])"
  by (rule ext) (simp add: vocab_line_def)

lemma save_corpus_vocab_eq:
  "fst (UciCorpus_save_corpus dict_from_corpus name corpus id2word progress_cnt)
     = concat (map (vocab_line (vocab_dict dict_from_corpus corpus id2word))
                   [0 .. vocab_terms dict_from_corpus corpus id2word - 1])"
  by (cases id2word)
     (simp_all add: UciCorpus_save_corpus_def vocab_dict_def vocab_terms_def vocab_line_fun
        dict_get_def dict_max_def Let_def)

lemma vocab_line_line:
  assumes "\<forall>(k, word) \<in> set d. CHR 0x0A \<notin> set word"
  shows "\<exists>t. vocab_line d i = t @ [CHR 0x0A] \<and> CHR 0x0A \<notin> set t"
proof (cases "map_of d i")
  case None
  then show ?thesis by (simp add: vocab_line_def)
next
  case (Some word)
  then have "(i, word) \<in> set d" by (rule map_of_SomeD)
  then have "CHR 0x0A \<notin> set word" using assms by auto
  then show ?thesis using Some by (simp add: vocab_line_def)
qed

text \<open>
  C10, as stated, fails: a word is written as it is, and a word may hold a newline. For
  the mapping \<^verbatim>\<open>{0: 'a\nb'}\<close> \<open>num_terms\<close> is \<open>1\<close>, the only write is \<^verbatim>\<open>a\nb\n\<close>, and the
  vocabulary file has two lines.
\<close>

theorem save_corpus_vocabulary_two_lines:
  "vocab_terms (\<lambda>c. []) scenario (Some [(0, ''a'' @ [CHR 0x0A] @ ''b'')]) = 1
   \<and> fst (UciCorpus_save_corpus (\<lambda>c. []) ''corpus.uci'' scenario
            (Some [(0, ''a'' @ [CHR 0x0A] @ ''b'')]) 1000)
       = ''a'' @ [CHR 0x0A] @ ''b'' @ [CHR 0x0A]
   \<and> lines_of (fst (UciCorpus_save_corpus (\<lambda>c. []) ''corpus.uci'' scenario
                      (Some [(0, ''a'' @ [CHR 0x0A] @ ''b'')]) 1000))
       = [''a'' @ [CHR 0x0A], ''b'' @ [CHR 0x0A]]
   \<and> length (lines_of (fst (UciCorpus_save_corpus (\<lambda>c. []) ''corpus.uci'' scenario
                      (Some [(0, ''a'' @ [CHR 0x0A] @ ''b'')]) 1000))) = 2"
proof -
  let ?m = "[(0, ''a'' @ [CHR 0x0A] @ ''b'')] :: id2word"
  have n: "vocab_terms (\<lambda>c. []) scenario (Some ?m) = 1"
    by (simp add: vocab_terms_def)
  have d: "vocab_dict (\<lambda>c. []) scenario (Some ?m) = ?m"
    by (simp add: vocab_dict_def)
  have v: "fst (UciCorpus_save_corpus (\<lambda>c. []) ''corpus.uci'' scenario (Some ?m) 1000)
       = ''a'' @ [CHR 0x0A] @ ''b'' @ [CHR 0x0A]"
    by (simp only: save_corpus_vocab_eq n d) (simp add: vocab_line_def)
  have l: "lines_of (''a'' @ [CHR 0x0A] @ ''b'' @ [CHR 0x0A])
       = [''a'' @ [CHR 0x0A], ''b'' @ [CHR 0x0A]]"
    by simp
  show ?thesis
    using n by (simp only: v l) simp
qed

text \<open>
  C10, amended: \<^verbatim>\<open>UciCorpus.save_corpus\<close> always writes the vocabulary file, whatever becomes of
  the corpus file, with one write per feature id from \<open>0\<close> to \<open>num_terms - 1\<close> in
  ascending order: the word of the id and a newline, or \<open>---\<close> and a newline for an id
  that the mapping does not have. \<open>num_terms\<close> is \<open>1 + max(id2word)\<close> for a non-empty
  mapping, \<open>0\<close> for an empty one, and the length of the mapping inferred from the corpus when
  none is given. When no word holds a newline, these writes are the lines of the file, and
  there are \<open>num_terms\<close> of them (\<open>num_terms\<close> is not negative when the ids of the mapping
  are not).
\<close>

theorem save_corpus_vocabulary:
  "fst (UciCorpus_save_corpus dict_from_corpus name corpus id2word progress_cnt)
       = concat (map (vocab_line (vocab_dict dict_from_corpus corpus id2word))
                     [0 .. vocab_terms dict_from_corpus corpus id2word - 1])
   \<and> vocab_terms dict_from_corpus corpus id2word
       = (case id2word of
            None \<Rightarrow> dict_len (dict_from_corpus corpus)
          | Some m \<Rightarrow> if m = [] then 0 else 1 + Max (set (map fst m)))
   \<and> (\<forall>i. map_of (vocab_dict dict_from_corpus corpus id2word) i = None \<longrightarrow>
            vocab_line (vocab_dict dict_from_corpus corpus id2word) i = ''---'' @ [CHR 0x0A])
   \<and> ((\<forall>(k, word) \<in> set (vocab_dict dict_from_corpus corpus id2word). CHR 0x0A \<notin> set word) \<longrightarrow>
        lines_of (fst (UciCorpus_save_corpus dict_from_corpus name corpus id2word progress_cnt))
          = map (vocab_line (vocab_dict dict_from_corpus corpus id2word))
                [0 .. vocab_terms dict_from_corpus corpus id2word - 1]
        \<and> length (lines_of (fst (UciCorpus_save_corpus dict_from_corpus name corpus id2word
                                   progress_cnt)))
          = nat (vocab_terms dict_from_corpus corpus id2word))
   \<and> ((\<forall>(k, word) \<in> set (vocab_dict dict_from_corpus corpus id2word). 0 \<le> k) \<longrightarrow>
        0 \<le> vocab_terms dict_from_corpus corpus id2word)"
proof -
  let ?d = "vocab_dict dict_from_corpus corpus id2word"
  let ?n = "vocab_terms dict_from_corpus corpus id2word"
  let ?vocab = "fst (UciCorpus_save_corpus dict_from_corpus name corpus id2word progress_cnt)"
  have v: "?vocab = concat (map (vocab_line ?d) [0 .. ?n - 1])"
    by (rule save_corpus_vocab_eq)
  have l: "lines_of ?vocab = map (vocab_line ?d) [0 .. ?n - 1]"
    if nl: "\<forall>(k, word) \<in> set ?d. CHR 0x0A \<notin> set word"
  proof -
    have "\<forall>l \<in> set (map (vocab_line ?d) [0 .. ?n - 1]). \<exists>t. l = t @ [CHR 0x0A] \<and> CHR 0x0A \<notin> set t"
      using vocab_line_line[OF nl] by auto
    from lines_of_concat[OF this, of "[]"] show ?thesis by (simp add: v)
  qed
  have nn: "0 \<le> ?n" if ids: "\<forall>(k, word) \<in> set ?d. 0 \<le> k"
  proof (cases id2word)
    case None
    then show ?thesis by (simp add: vocab_terms_def dict_len_def)
  next
    case (Some m)
    show ?thesis
    proof (cases "m = []")
      case True
      then show ?thesis using Some by (simp add: vocab_terms_def)
    next
      case False
      then obtain p where p: "p \<in> set m" by (cases m) auto
      then have "fst p \<le> Max (set (map fst m))" by (intro Max_ge) auto
      moreover have "0 \<le> fst p" using ids p Some by (auto simp add: vocab_dict_def)
      ultimately show ?thesis using Some False by (simp add: vocab_terms_def)
    qed
  qed
  have a: "\<forall>i. map_of ?d i = None \<longrightarrow> vocab_line ?d i = ''---'' @ [CHR 0x0A]"
    by (simp add: vocab_line_def)
  have t: "?n = (case id2word of
            None \<Rightarrow> dict_len (dict_from_corpus corpus)
          | Some m \<Rightarrow> if m = [] then 0 else 1 + Max (set (map fst m)))"
    by (simp add: vocab_terms_def)
  have c: "length (lines_of ?vocab) = nat ?n"
    if nl: "\<forall>(k, word) \<in> set ?d. CHR 0x0A \<notin> set word"
    using l[OF nl] by simp
  show ?thesis
    using v t a l c nn by blast
qed

theorem save_corpus_vocabulary_witness:
  "list_all (\<lambda>(k, word). CHR 0x0A \<notin> set word \<and> 0 \<le> k) [(0 :: int, ''a''), (2, ''c'')]
   \<and> vocab_terms (\<lambda>c. []) scenario (Some [(0, ''a''), (2, ''c'')]) = 3
   \<and> fst (UciCorpus_save_corpus (\<lambda>c. []) ''corpus.uci'' scenario (Some [(0, ''a''), (2, ''c'')]) 1000)
       = ''a'' @ [CHR 0x0A] @ ''---'' @ [CHR 0x0A] @ ''c'' @ [CHR 0x0A]
   \<and> lines_of (fst (UciCorpus_save_corpus (\<lambda>c. []) ''corpus.uci'' scenario
                      (Some [(0, ''a''), (2, ''c'')]) 1000))
       = [''a'' @ [CHR 0x0A], ''---'' @ [CHR 0x0A], ''c'' @ [CHR 0x0A]]
   \<and> length (lines_of (fst (UciCorpus_save_corpus (\<lambda>c. []) ''corpus.uci'' scenario
                      (Some [(0, ''a''), (2, ''c'')]) 1000))) = 3"
proof -
  let ?m = "[(0, ''a''), (2, ''c'')] :: id2word"
  have d: "vocab_dict (\<lambda>c. []) scenario (Some ?m) = ?m"
    by (simp add: vocab_dict_def)
  have n: "vocab_terms (\<lambda>c. []) scenario (Some ?m) = 3"
    by (simp add: vocab_terms_def)
  have r: "[0 .. (2::int)] = [0, 1, 2]"
    by (simp add: upto_rec1)
  have h: "\<forall>(k, word) \<in> set ?m. CHR 0x0A \<notin> set word"
    by simp
  show ?thesis
    using save_corpus_vocabulary[of "\<lambda>c. []" "''corpus.uci''" scenario "Some ?m" 1000] h
    by (simp add: d n r vocab_line_def)
qed

section \<open>The number of terms of a saved corpus\<close>







section \<open>Iteration and empty documents\<close>

lemma entries_of_simps:
  "entries_of i [] = []"
  "entries_of i ((d, p) # rest) = (if d = i then p # entries_of i rest else entries_of i rest)"
  by (simp_all add: entries_of_def)

lemma entries_of_none: "\<forall>e \<in> set entries. fst e \<noteq> i \<Longrightarrow> entries_of i entries = []"
  by (induction entries) (auto simp add: entries_of_def)

lemma empty_docs_eq:
  "\<forall>e \<in> set entries. b < fst e \<Longrightarrow>
   empty_docs a b = map (\<lambda>i. (i, entries_of i entries)) [a .. b]"
proof -
  assume gt: "\<forall>e \<in> set entries. b < fst e"
  have "entries_of i entries = []" if "i \<le> b" for i
    using gt that by (intro entries_of_none) auto
  then show ?thesis by (simp add: empty_docs_def)
qed

lemma group_entries_eq:
  assumes "sorted (map fst rest)" and "\<forall>e \<in> set rest. cur \<le> fst e \<and> fst e < n" and "cur < n"
  shows "group_entries cur pending n rest
       = (cur, pending @ entries_of cur rest) # map (\<lambda>i. (i, entries_of i rest)) [cur + 1 .. n - 1]"
  using assms
proof (induction rest arbitrary: cur pending)
  case Nil
  then show ?case by (simp add: empty_docs_def entries_of_simps)
next
  case (Cons e rest)
  obtain d f w where e: "e = (d, f, w)" by (cases e)
  have srt: "sorted (map fst rest)" and ge: "\<forall>x \<in> set rest. d \<le> fst x"
    using Cons.prems(1) by (auto simp add: e)
  have dn: "d < n" and cd: "cur \<le> d" using Cons.prems(2) by (auto simp add: e)
  show ?case
  proof (cases "d = cur")
    case True
    have b: "\<forall>x \<in> set rest. cur \<le> fst x \<and> fst x < n"
      using Cons.prems(2) by simp
    have "map (\<lambda>i. (i, entries_of i ((cur, f, w) # rest))) [cur + 1 .. n - 1]
        = map (\<lambda>i. (i, entries_of i rest)) [cur + 1 .. n - 1]"
      by (auto simp add: entries_of_simps)
    then show ?thesis
      using Cons.IH[OF srt b Cons.prems(3), of "pending @ [(f, w)]"] True
      by (simp add: e entries_of_simps)
  next
    case False
    then have lt: "cur < d" using cd by simp
    have b: "\<forall>x \<in> set rest. d \<le> fst x \<and> fst x < n"
      using ge Cons.prems(2) by simp
    have ih: "group_entries d [(f, w)] n rest
        = (d, [(f, w)] @ entries_of d rest) # map (\<lambda>i. (i, entries_of i rest)) [d + 1 .. n - 1]"
      by (rule Cons.IH[OF srt b dn])
    have none: "entries_of cur ((d, f, w) # rest) = []"
      using lt ge by (intro entries_of_none) auto
    have gap: "empty_docs (cur + 1) (d - 1)
        = map (\<lambda>i. (i, entries_of i ((d, f, w) # rest))) [cur + 1 .. d - 1]"
      using ge by (intro empty_docs_eq) auto
    have tail: "map (\<lambda>i. (i, entries_of i ((d, f, w) # rest))) [d + 1 .. n - 1]
        = map (\<lambda>i. (i, entries_of i rest)) [d + 1 .. n - 1]"
      by (auto simp add: entries_of_simps)
    have split: "[cur + 1 .. n - 1] = [cur + 1 .. d - 1] @ d # [d + 1 .. n - 1]"
      using lt dn upto_split1[of "cur + 1" d "n - 1"] upto_rec1[of d "n - 1"] by simp
    show ?thesis
      using False ih
      by (simp add: e none gap tail split) (simp add: entries_of_simps)
  qed
qed

lemma MmReader_iter_eq:
  assumes "sorted (map fst entries)" and "\<forall>e \<in> set entries. 0 \<le> fst e \<and> fst e < n"
  shows "MmReader_iter n entries = map (\<lambda>i. (i, entries_of i entries)) [0 .. n - 1]"
proof (cases entries)
  case Nil
  then show ?thesis by (simp add: MmReader_iter_def empty_docs_def entries_of_simps)
next
  case (Cons e rest)
  obtain d f w where e: "e = (d, f, w)" by (cases e)
  have srt: "sorted (map fst rest)" and ge: "\<forall>x \<in> set rest. d \<le> fst x"
    using assms(1) by (auto simp add: Cons e)
  have d0: "0 \<le> d" and dn: "d < n" using assms(2) by (auto simp add: Cons e)
  have b: "\<forall>x \<in> set rest. d \<le> fst x \<and> fst x < n"
    using ge assms(2) by (simp add: Cons)
  have g: "group_entries d [(f, w)] n rest
        = (d, [(f, w)] @ entries_of d rest) # map (\<lambda>i. (i, entries_of i rest)) [d + 1 .. n - 1]"
    by (rule group_entries_eq[OF srt b dn])
  have gap: "empty_docs 0 (d - 1) = map (\<lambda>i. (i, entries_of i ((d, f, w) # rest))) [0 .. d - 1]"
    using ge by (intro empty_docs_eq) auto
  have tail: "map (\<lambda>i. (i, entries_of i ((d, f, w) # rest))) [d + 1 .. n - 1]
        = map (\<lambda>i. (i, entries_of i rest)) [d + 1 .. n - 1]"
    by (auto simp add: entries_of_simps)
  have split: "[0 .. n - 1] = [0 .. d - 1] @ d # [d + 1 .. n - 1]"
    using d0 dn upto_split1[of 0 d "n - 1"] upto_rec1[of d "n - 1"] by simp
  show ?thesis
    by (simp add: Cons e MmReader_iter_def g gap tail split) (simp add: entries_of_simps)
qed

text \<open>
  C1, as stated, fails: for a file whose header declares one document and whose entry
  lines name the documents \<open>0\<close> and \<open>1\<close>, the iteration yields two documents.
\<close>

theorem iter_yields_more_than_num_docs:
  "MmReader_iter 1 [(0, 0, 1), (1, 0, 1)] = [(0, [(0, 1)]), (1, [(0, 1)])]
   \<and> length (MmCorpus_iter 1 [(0, 0, 1), (1, 0, 1)]) = 2"
  by (simp add: MmCorpus_iter_def MmReader_iter_def empty_docs_def)

text \<open>
  C1, amended: for a corpus file whose header declares \<open>num_docs = n\<close> and whose entry
  lines carry document ids in ascending order, all from \<open>0\<close> to \<open>n - 1\<close>, a full iteration
  yields the ids \<open>0\<close> to \<open>n - 1\<close> in order, each with the pairs of its entry lines, hence
  exactly \<open>n\<close> documents, with an empty document for every id that has no entry line.
\<close>

theorem iter_yields_num_docs:
  assumes "sorted (map fst entries)" and "\<forall>e \<in> set entries. 0 \<le> fst e \<and> fst e < n"
  shows "MmReader_iter n entries = map (\<lambda>i. (i, entries_of i entries)) [0 .. n - 1]
     \<and> length (MmCorpus_iter n entries) = nat n
     \<and> (\<forall>i. 0 \<le> i \<and> i < n \<and> i \<notin> fst ` set entries \<longrightarrow> (i, []) \<in> set (MmReader_iter n entries))"
proof -
  have eq: "MmReader_iter n entries = map (\<lambda>i. (i, entries_of i entries)) [0 .. n - 1]"
    by (rule MmReader_iter_eq[OF assms])
  have len: "length (MmCorpus_iter n entries) = nat n"
    by (simp add: MmCorpus_iter_def eq)
  have emp: "(i, []) \<in> set (MmReader_iter n entries)"
    if "0 \<le> i" "i < n" "i \<notin> fst ` set entries" for i
  proof -
    have "entries_of i entries = []"
      using that(3) by (intro entries_of_none) auto
    then show ?thesis
      using that(1,2) by (force simp add: eq)
  qed
  show ?thesis using eq len emp by blast
qed

theorem iter_yields_num_docs_witness:
  "sorted (map fst [(0 :: int, 0 :: int, 1 :: rat), (0, 2, 3), (2, 1, 2)])
   \<and> list_all (\<lambda>e. 0 \<le> fst e \<and> fst e < 3) [(0 :: int, 0 :: int, 1 :: rat), (0, 2, 3), (2, 1, 2)]
   \<and> MmReader_iter 3 [(0, 0, 1), (0, 2, 3), (2, 1, 2)]
       = [(0, [(0, 1), (2, 3)]), (1, []), (2, [(1, 2)])]
   \<and> length (MmCorpus_iter 3 [(0, 0, 1), (0, 2, 3), (2, 1, 2)]) = 3"
proof -
  let ?es = "[(0, 0, 1), (0, 2, 3), (2, 1, 2)] :: entry list"
  have s: "sorted (map fst ?es)" by simp
  have b: "\<forall>e \<in> set ?es. 0 \<le> fst e \<and> fst e < 3" by simp
  have r: "[0 .. (2::int)] = [0, 1, 2]" by (simp add: upto_rec1)
  show ?thesis
    using iter_yields_num_docs[OF s b]
    by (simp add: r entries_of_def)
qed

end
